theory Spec2Isabelle
  imports Complex_Main "HOL-Library.Sublist"
begin

section \<open>Strings\<close>

text \<open>
  A JavaScript string is a sequence of UTF-16 code units; \<open>length\<close>, \<open>substring\<close>
  and the regular expressions of the source (none has the \<open>u\<close> flag) all work on code
  units. A string is a list of code units, each a natural number below 65536.
\<close>

type_synonym jsstring = "nat list"

definition js :: "string \<Rightarrow> jsstring" where
  "js s = map of_char s"

text \<open>
  The class \<open>\s\<close> of a regular expression and the characters removed by
  \<open>String.prototype.trim\<close> are the same set: WhiteSpace and LineTerminator of ECMAScript
  (TAB, LF, VT, FF, CR, SP, NBSP, U+1680, U+2000..U+200A, U+2028, U+2029, U+202F, U+205F,
  U+3000, U+FEFF).
\<close>

definition isSpace :: "nat \<Rightarrow> bool" where
  "isSpace c =
     (c \<in> {9, 10, 11, 12, 13, 32, 160, 5760, 8232, 8233, 8239, 8287, 12288, 65279}
      \<or> (8192 \<le> c \<and> c \<le> 8202))"

text \<open>The class \<open>\d\<close>: the ASCII digits.\<close>

definition isDigit :: "nat \<Rightarrow> bool" where
  "isDigit c = (48 \<le> c \<and> c \<le> 57)"

text \<open>The characters \<open>.\<close> does not match: LF, CR, U+2028, U+2029.\<close>

definition isLineTerminator :: "nat \<Rightarrow> bool" where
  "isLineTerminator c = (c \<in> {10, 13, 8232, 8233})"

text \<open>\<open>String.prototype.trim\<close>.\<close>

definition trim :: "jsstring \<Rightarrow> jsstring" where
  "trim s = rev (dropWhile isSpace (rev (dropWhile isSpace s)))"

text \<open>\<open>stripPrefix p s\<close>: the rest of \<open>s\<close> after the literal \<open>p\<close>, when \<open>s\<close> starts with it.\<close>

fun stripPrefix :: "jsstring \<Rightarrow> jsstring \<Rightarrow> jsstring option" where
  "stripPrefix [] s = Some s"
| "stripPrefix (p # ps) [] = None"
| "stripPrefix (p # ps) (c # cs) = (if p = c then stripPrefix ps cs else None)"

text \<open>\<open>String.prototype.includes\<close>: the pattern occurs at some position of the line.\<close>

fun str_includes :: "jsstring \<Rightarrow> jsstring \<Rightarrow> bool" where
  "str_includes [] p = (p = [])"
| "str_includes (c # cs) p = (stripPrefix p (c # cs) \<noteq> None \<or> str_includes cs p)"

section \<open>utils.ts: sanitizeFilename\<close>

text \<open>The character class \<open>[<>:"/\\|?*]\<close>, as code units.\<close>

definition invalidChars :: "nat list" where
  "invalidChars = [60, 62, 58, 34, 47, 92, 124, 63, 42]"

text \<open>\<open>.replace(/[<>:"/\\|?*]/g, "-")\<close>: every invalid character becomes a hyphen (45).\<close>

definition replaceInvalid :: "jsstring \<Rightarrow> jsstring" where
  "replaceInvalid s = map (\<lambda>c. if c \<in> set invalidChars then 45 else c) s"

text \<open>\<open>.replace(/\s+/g, " ")\<close>: every maximal run of whitespace becomes one space (32).\<close>

function collapseWs :: "jsstring \<Rightarrow> jsstring" where
  "collapseWs [] = []"
| "collapseWs (c # cs) =
     (if isSpace c then 32 # collapseWs (dropWhile isSpace cs) else c # collapseWs cs)"
  by pat_completeness auto
termination
  by (relation "measure length") (auto simp: le_imp_less_Suc length_dropWhile_le)

definition sanitizeFilename :: "jsstring \<Rightarrow> jsstring" where
  "sanitizeFilename filename = take 200 (trim (collapseWs (replaceInvalid filename)))"

text \<open>
  A string whose whitespace is already collapsed: every whitespace character is a space
  and is not followed by another whitespace character. (Used in the proofs only.)
\<close>

fun wsNormal :: "jsstring \<Rightarrow> bool" where
  "wsNormal [] = True"
| "wsNormal [c] = (isSpace c \<longrightarrow> c = 32)"
| "wsNormal (c # d # cs) = ((isSpace c \<longrightarrow> c = 32 \<and> \<not> isSpace d) \<and> wsNormal (d # cs))"

section \<open>utils.ts: parseProgress, and the destination pattern of downloadVideo\<close>

text \<open>
  \<open>line.match(/\[download\]\s+(\d+\.?\d*)%/)\<close> searches the leftmost position where the
  pattern matches and returns the text of group 1. At one position the match is
  deterministic: \<open>\s+\<close> is followed by a digit and \<open>\d+\.?\d*\<close> by \<open>%\<close>, so giving back
  characters of a greedy quantifier never makes a failed match succeed, and the captured
  text is always the whole run between the whitespace and the percent sign.
\<close>

definition matchProgressAt :: "jsstring \<Rightarrow> jsstring option" where
  "matchProgressAt s =
     (case stripPrefix (js ''[download]'') s of
        None \<Rightarrow> None
      | Some r \<Rightarrow>
          let ws = takeWhile isSpace r; r1 = dropWhile isSpace r;
              d1 = takeWhile isDigit r1; r2 = dropWhile isDigit r1;
              dot = (case r2 of [] \<Rightarrow> [] | c # _ \<Rightarrow> if c = 46 then [46] else []);
              r3 = drop (length dot) r2;
              d2 = takeWhile isDigit r3; r4 = dropWhile isDigit r3
          in if ws = [] \<or> d1 = [] then None
             else (case r4 of
                     [] \<Rightarrow> None
                   | c # _ \<Rightarrow> if c = 37 then Some (d1 @ dot @ d2) else None))"

fun searchProgress :: "jsstring \<Rightarrow> jsstring option" where
  "searchProgress [] = matchProgressAt []"
| "searchProgress (c # cs) =
     (case matchProgressAt (c # cs) of
        Some m \<Rightarrow> Some m
      | None \<Rightarrow> searchProgress cs)"

text \<open>
  \<open>parseFloat\<close> on a text of the shape \<open>\d+\.?\d*\<close>: the decimal number it writes. The
  source's result is the IEEE double nearest to that number; the model keeps the exact
  rational (the two agree whenever the decimal is a double, as 45.5 is).
\<close>

definition digitsVal :: "jsstring \<Rightarrow> nat" where
  "digitsVal ds = foldl (\<lambda>a c. 10 * a + (c - 48)) 0 ds"

definition parseFloat :: "jsstring \<Rightarrow> rat" where
  "parseFloat t =
     (let ip = takeWhile isDigit t; r = dropWhile isDigit t;
          fp = (case r of [] \<Rightarrow> [] | c # r' \<Rightarrow> if c = 46 then takeWhile isDigit r' else [])
      in of_nat (digitsVal (ip @ fp)) / 10 ^ length fp)"

definition parseProgress :: "jsstring \<Rightarrow> rat option" where
  "parseProgress line =
     (case searchProgress line of
        Some m \<Rightarrow> Some (parseFloat m)
      | None \<Rightarrow> None)"

text \<open>
  \<open>line.match(/\[download\] Destination: (.+)/)\<close> in the output handler of downloadVideo:
  the leftmost position where the literal is followed by at least one character that is
  not a line terminator; group 1 is the run of such characters.
\<close>

definition matchDestAt :: "jsstring \<Rightarrow> jsstring option" where
  "matchDestAt s =
     (case stripPrefix (js ''[download] Destination: '') s of
        None \<Rightarrow> None
      | Some r \<Rightarrow>
          let m = takeWhile (\<lambda>c. \<not> isLineTerminator c) r
          in if m = [] then None else Some m)"

fun destMatch :: "jsstring \<Rightarrow> jsstring option" where
  "destMatch [] = matchDestAt []"
| "destMatch (c # cs) =
     (case matchDestAt (c # cs) of
        Some m \<Rightarrow> Some m
      | None \<Rightarrow> destMatch cs)"

text \<open>The destination signal of a line: \<open>destMatch[1].trim()\<close> when the pattern matches.\<close>

definition destination :: "jsstring \<Rightarrow> jsstring option" where
  "destination line = map_option trim (destMatch line)"

text \<open>
  The two patterns, read as the regular expressions are written rather than as a search
  procedure. \<open>\[download\]\s+(\d+\.?\d*)%\<close> at the start of a text: the tag, one
  or more whitespace characters, one or more digits, an optional dot, any number of
  digits, and a percent sign; how the text is divided among the quantifiers is left open.
  A line matches when some suffix of it starts this way.
\<close>

definition progressPatternAt :: "jsstring \<Rightarrow> bool" where
  "progressPatternAt s =
     (\<exists>ws d1 dot d2 rest.
        s = js ''[download]'' @ ws @ d1 @ dot @ d2 @ 37 # rest
        \<and> ws \<noteq> [] \<and> (\<forall>c\<in>set ws. isSpace c)
        \<and> d1 \<noteq> [] \<and> (\<forall>c\<in>set d1. isDigit c)
        \<and> (dot = [] \<or> dot = [46])
        \<and> (\<forall>c\<in>set d2. isDigit c))"

definition matchesProgressPattern :: "jsstring \<Rightarrow> bool" where
  "matchesProgressPattern line = (\<exists>pre s. line = pre @ s \<and> progressPatternAt s)"

text \<open>
  \<open>\[download\] Destination: (.+)\<close> at the start of a text: the tag and the word with
  its two spaces, then one or more characters that are not line terminators.
\<close>

definition destinationPatternAt :: "jsstring \<Rightarrow> bool" where
  "destinationPatternAt s =
     (\<exists>m rest.
        s = js ''[download] Destination: '' @ m @ rest
        \<and> m \<noteq> [] \<and> (\<forall>c\<in>set m. \<not> isLineTerminator c))"

definition matchesDestinationPattern :: "jsstring \<Rightarrow> bool" where
  "matchesDestinationPattern line = (\<exists>pre s. line = pre @ s \<and> destinationPatternAt s)"

text \<open>
  The output handler of downloadVideo, on the two variables it updates: the percentage of
  the progress entry and the captured output path.
\<close>

definition onStdoutData :: "jsstring \<Rightarrow> rat \<times> jsstring \<Rightarrow> rat \<times> jsstring" where
  "onStdoutData line st =
     (let p1 = (case parseProgress line of Some v \<Rightarrow> v | None \<Rightarrow> fst st);
          outputPath = (case destination line of Some d \<Rightarrow> d | None \<Rightarrow> snd st);
          p2 = (if str_includes line (js ''100%'')
                   \<or> str_includes line (js ''has already been downloaded'')
                then 100 else p1)
      in (p2, outputPath))"

section \<open>utils.ts: checkSponsorBlockData\<close>

text \<open>
  The value \<open>JSON.parse\<close> returns. The probe only asks whether it is an array and how long
  the array is.
\<close>

datatype json =
    JNull
  | JBool bool
  | JNumber rat
  | JString jsstring
  | JArray "json list"
  | JObject "(jsstring \<times> json) list"

text \<open>
  What the network does to one request of the probe. \<open>Response st body\<close>: a response with
  status code \<open>st\<close> arrives, and \<open>body\<close> is what \<open>JSON.parse\<close> makes of its body
  (\<open>None\<close>: it throws a SyntaxError). \<open>RequestError\<close>: the request emits \<open>error\<close>.
  \<open>Timeout\<close>: the request emits \<open>timeout\<close> (only the https implementation sets one).
  \<open>SetupThrows\<close>: building or sending the request throws inside the \<open>try\<close> block.
\<close>

datatype HttpOutcome =
    Response nat "json option"
  | RequestError
  | Timeout
  | SetupThrows

text \<open>\<open>Array.isArray(parsed) && parsed.length > 0\<close>.\<close>

definition nonEmptyArray :: "json \<Rightarrow> bool" where
  "nonEmptyArray j = (case j of JArray xs \<Rightarrow> 0 < length xs | _ \<Rightarrow> False)"

text \<open>
  The implementation on \<open>https.get\<close> with a timeout of 10000 ms: the value the returned
  promise resolves to. No path of the function rejects the promise.
\<close>

definition checkSponsorBlockData :: "HttpOutcome \<Rightarrow> bool" where
  "checkSponsorBlockData outcome =
     (case outcome of
        Response statusCode body \<Rightarrow>
          if statusCode = 404 then False
          else if statusCode \<noteq> 200 then False
          else (case body of None \<Rightarrow> False | Some parsed \<Rightarrow> nonEmptyArray parsed)
      | RequestError \<Rightarrow> False
      | Timeout \<Rightarrow> False
      | SetupThrows \<Rightarrow> False)"

text \<open>
  The implementation on \<open>fetch\<close> (src/utils.ts): \<open>response.ok\<close> is a status from 200 to
  299; a rejected \<open>fetch\<close> or \<open>response.json()\<close> is caught. It sets no timeout, so the
  outcome \<open>Timeout\<close> cannot occur; the function maps it to False like every caught error.
\<close>

definition checkSponsorBlockData_fetch :: "HttpOutcome \<Rightarrow> bool" where
  "checkSponsorBlockData_fetch outcome =
     (case outcome of
        Response status body \<Rightarrow>
          if status = 404 then False
          else if \<not> (200 \<le> status \<and> status \<le> 299) then False
          else (case body of None \<Rightarrow> False | Some data \<Rightarrow> nonEmptyArray data)
      | RequestError \<Rightarrow> False
      | Timeout \<Rightarrow> False
      | SetupThrows \<Rightarrow> False)"

section \<open>types.ts\<close>

datatype VideoStatus = Completed | Failed

datatype ProgressStatus = Downloading | ProgressCompleted | ProgressFailed | Queued

record Playlist =
  pl_id :: jsstring
  pl_url :: jsstring
  pl_title :: jsstring
  lastChecked :: "jsstring option"
  enabled :: bool

text \<open>\<open>hasSponsorBlock?: boolean\<close>: \<open>None\<close> is the absent field.\<close>

record Video =
  v_id :: jsstring
  playlistId :: jsstring
  v_title :: jsstring
  downloadedAt :: jsstring
  filepath :: jsstring
  status :: VideoStatus
  v_error :: "jsstring option"
  hasSponsorBlock :: "bool option"

record Config =
  downloadPath :: jsstring
  maxConcurrentDownloads :: nat
  sponsorBlockCategories :: "jsstring list"

record Database =
  playlists :: "Playlist list"
  videos :: "Video list"

record DownloadProgress =
  dp_videoId :: jsstring
  dp_title :: jsstring
  dp_progress :: rat
  dp_status :: ProgressStatus
  dp_error :: "jsstring option"

text \<open>\<open>Partial<Playlist>\<close>: the fields an update carries.\<close>

record PlaylistUpdates =
  u_id :: "jsstring option"
  u_url :: "jsstring option"
  u_title :: "jsstring option"
  u_lastChecked :: "jsstring option option"
  u_enabled :: "bool option"

text \<open>The interfaces of downloader.ts.\<close>

record VideoInfo =
  vi_id :: jsstring
  vi_title :: jsstring
  vi_url :: jsstring

record PlaylistInfo =
  pi_id :: jsstring
  pi_title :: jsstring
  entries :: "VideoInfo list"

text \<open>An element of the download queue: \<open>VideoInfo & { playlistId: string }\<close>.\<close>

record QueuedVideo =
  q_id :: jsstring
  q_title :: jsstring
  q_url :: jsstring
  q_playlistId :: jsstring

section \<open>Errors and the environment\<close>

datatype error =
    DatabaseNotLoaded
  | PersistenceError
  | FetchPlaylistFailed
  | FsError

text \<open>
  What the world outside the process answers: whether the n-th write of the database file
  succeeds, whether removing a folder succeeds, whether a file exists, what the
  SponsorBlock service does to the n-th probe the process makes (counted from 0) when it
  asks for an item id, and Node's \<open>path.join\<close>.
\<close>

record Env =
  save_ok :: "nat \<Rightarrow> bool"
  rm_ok :: "jsstring \<Rightarrow> bool"
  access_ok :: "jsstring \<Rightarrow> bool"
  sponsorBlock :: "nat \<Rightarrow> jsstring \<Rightarrow> HttpOutcome"
  path_join :: "jsstring \<Rightarrow> jsstring \<Rightarrow> jsstring"

section \<open>database.ts: DatabaseManager\<close>

text \<open>
  The manager holds the database in memory (\<open>db\<close>, \<open>None\<close> before \<open>load\<close>). \<open>dbFile\<close> is
  the content of the database file (\<open>None\<close>: no file), and \<open>writes\<close> counts the writes of
  that file that were attempted.
\<close>

record DatabaseManager =
  db :: "Database option"
  dbFile :: "Database option"
  writes :: nat

definition DEFAULT_DATABASE :: Database where
  "DEFAULT_DATABASE = \<lparr>playlists = [], videos = []\<rparr>"

text \<open>
  \<open>save\<close> writes a temporary file and renames it: a write that fails leaves the database
  file as it was.
\<close>

definition save :: "Env \<Rightarrow> DatabaseManager \<Rightarrow> (error + unit) \<times> DatabaseManager" where
  "save env m =
     (case db m of
        None \<Rightarrow> (Inl DatabaseNotLoaded, m)
      | Some d \<Rightarrow>
          if save_ok env (writes m)
          then (Inr (), m\<lparr>dbFile := Some d, writes := Suc (writes m)\<rparr>)
          else (Inl PersistenceError, m\<lparr>writes := Suc (writes m)\<rparr>))"

text \<open>\<open>load\<close>: reads the file, or creates the default database when there is none.\<close>

definition load :: "Env \<Rightarrow> DatabaseManager \<Rightarrow> (error + Database) \<times> DatabaseManager" where
  "load env m =
     (case dbFile m of
        Some d \<Rightarrow> (Inr d, m\<lparr>db := Some d\<rparr>)
      | None \<Rightarrow>
          (case save env (m\<lparr>db := Some DEFAULT_DATABASE\<rparr>) of
             (Inl e, m') \<Rightarrow> (Inl e, m')
           | (Inr _, m') \<Rightarrow> (Inr DEFAULT_DATABASE, m')))"

definition getDatabase :: "DatabaseManager \<Rightarrow> error + Database" where
  "getDatabase m = (case db m of None \<Rightarrow> Inl DatabaseNotLoaded | Some d \<Rightarrow> Inr d)"

text \<open>\<open>Array.prototype.findIndex\<close>; \<open>None\<close> is the result -1.\<close>

fun findIndex :: "('a \<Rightarrow> bool) \<Rightarrow> 'a list \<Rightarrow> nat option" where
  "findIndex P [] = None"
| "findIndex P (x # xs) = (if P x then Some 0 else map_option Suc (findIndex P xs))"

text \<open>\<open>xs.splice(i, 1)\<close> for an index inside the array.\<close>

definition splice1 :: "nat \<Rightarrow> 'a list \<Rightarrow> 'a list" where
  "splice1 i xs = take i xs @ drop (Suc i) xs"

text \<open>\<open>addPlaylist\<close>; \<open>newId\<close> is the value \<open>generateId\<close> returns (time and random digits).\<close>

definition addPlaylist ::
  "Env \<Rightarrow> jsstring \<Rightarrow> Playlist \<Rightarrow> DatabaseManager \<Rightarrow> (error + Playlist) \<times> DatabaseManager" where
  "addPlaylist env newId playlist m =
     (case getDatabase m of
        Inl e \<Rightarrow> (Inl e, m)
      | Inr d \<Rightarrow>
          let newPlaylist = playlist\<lparr>pl_id := newId\<rparr>;
              m1 = m\<lparr>db := Some (d\<lparr>playlists := playlists d @ [newPlaylist]\<rparr>)\<rparr>
          in (case save env m1 of
                (Inl e, m2) \<Rightarrow> (Inl e, m2)
              | (Inr _, m2) \<Rightarrow> (Inr newPlaylist, m2)))"

definition removePlaylist ::
  "Env \<Rightarrow> jsstring \<Rightarrow> DatabaseManager \<Rightarrow> (error + bool) \<times> DatabaseManager" where
  "removePlaylist env i m =
     (case getDatabase m of
        Inl e \<Rightarrow> (Inl e, m)
      | Inr d \<Rightarrow>
          let initialLength = length (playlists d);
              d1 = d\<lparr>playlists := filter (\<lambda>p. pl_id p \<noteq> i) (playlists d)\<rparr>
          in if length (playlists d1) < initialLength
             then (let d2 = d1\<lparr>videos := filter (\<lambda>v. playlistId v \<noteq> i) (videos d1)\<rparr>
                   in case save env (m\<lparr>db := Some d2\<rparr>) of
                        (Inl e, m2) \<Rightarrow> (Inl e, m2)
                      | (Inr _, m2) \<Rightarrow> (Inr True, m2))
             else (Inr False, m\<lparr>db := Some d1\<rparr>))"

text \<open>\<open>Object.assign(playlist, updates)\<close>.\<close>

definition assign :: "Playlist \<Rightarrow> PlaylistUpdates \<Rightarrow> Playlist" where
  "assign p u =
     p\<lparr>pl_id := (case u_id u of None \<Rightarrow> pl_id p | Some x \<Rightarrow> x),
       pl_url := (case u_url u of None \<Rightarrow> pl_url p | Some x \<Rightarrow> x),
       pl_title := (case u_title u of None \<Rightarrow> pl_title p | Some x \<Rightarrow> x),
       lastChecked := (case u_lastChecked u of None \<Rightarrow> lastChecked p | Some x \<Rightarrow> x),
       enabled := (case u_enabled u of None \<Rightarrow> enabled p | Some x \<Rightarrow> x)\<rparr>"

definition noUpdates :: PlaylistUpdates where
  "noUpdates =
     \<lparr>u_id = None, u_url = None, u_title = None, u_lastChecked = None, u_enabled = None\<rparr>"

definition updatePlaylist ::
  "Env \<Rightarrow> jsstring \<Rightarrow> PlaylistUpdates \<Rightarrow> DatabaseManager
     \<Rightarrow> (error + Playlist option) \<times> DatabaseManager" where
  "updatePlaylist env i updates m =
     (case getDatabase m of
        Inl e \<Rightarrow> (Inl e, m)
      | Inr d \<Rightarrow>
          (case findIndex (\<lambda>p. pl_id p = i) (playlists d) of
             None \<Rightarrow> (Inr None, m)
           | Some k \<Rightarrow>
               let playlist = assign (playlists d ! k) updates;
                   m1 = m\<lparr>db := Some (d\<lparr>playlists := (playlists d)[k := playlist]\<rparr>)\<rparr>
               in (case save env m1 of
                     (Inl e, m2) \<Rightarrow> (Inl e, m2)
                   | (Inr _, m2) \<Rightarrow> (Inr (Some playlist), m2))))"

definition getPlaylists :: "DatabaseManager \<Rightarrow> error + Playlist list" where
  "getPlaylists m = (case getDatabase m of Inl e \<Rightarrow> Inl e | Inr d \<Rightarrow> Inr (playlists d))"

text \<open>
  \<open>addVideo\<close>: the record is pushed onto the in-memory array, then the database is saved;
  \<open>now\<close> is \<open>new Date().toISOString()\<close>.
\<close>

definition addVideo ::
  "Env \<Rightarrow> jsstring \<Rightarrow> Video \<Rightarrow> DatabaseManager \<Rightarrow> (error + Video) \<times> DatabaseManager" where
  "addVideo env now video m =
     (case getDatabase m of
        Inl e \<Rightarrow> (Inl e, m)
      | Inr d \<Rightarrow>
          let newVideo = video\<lparr>downloadedAt := now\<rparr>;
              m1 = m\<lparr>db := Some (d\<lparr>videos := videos d @ [newVideo]\<rparr>)\<rparr>
          in (case save env m1 of
                (Inl e, m2) \<Rightarrow> (Inl e, m2)
              | (Inr _, m2) \<Rightarrow> (Inr newVideo, m2)))"

text \<open>\<open>getVideos(playlistId?)\<close>: an absent or empty playlist id selects every record.\<close>

definition getVideos :: "jsstring option \<Rightarrow> DatabaseManager \<Rightarrow> error + Video list" where
  "getVideos pid m =
     (case getDatabase m of
        Inl e \<Rightarrow> Inl e
      | Inr d \<Rightarrow>
          (case pid of
             None \<Rightarrow> Inr (videos d)
           | Some p \<Rightarrow>
               if p \<noteq> [] then Inr (filter (\<lambda>v. playlistId v = p) (videos d))
               else Inr (videos d)))"

definition isVideoDownloaded :: "jsstring \<Rightarrow> DatabaseManager \<Rightarrow> error + bool" where
  "isVideoDownloaded videoId m =
     (case getDatabase m of
        Inl e \<Rightarrow> Inl e
      | Inr d \<Rightarrow> Inr (list_ex (\<lambda>v. v_id v = videoId \<and> status v = Completed) (videos d)))"

definition deleteVideo ::
  "Env \<Rightarrow> jsstring \<Rightarrow> DatabaseManager \<Rightarrow> (error + Video option) \<times> DatabaseManager" where
  "deleteVideo env videoId m =
     (case getDatabase m of
        Inl e \<Rightarrow> (Inl e, m)
      | Inr d \<Rightarrow>
          (case findIndex (\<lambda>v. v_id v = videoId) (videos d) of
             None \<Rightarrow> (Inr None, m)
           | Some videoIndex \<Rightarrow>
               let deletedVideo = videos d ! videoIndex;
                   m1 = m\<lparr>db := Some (d\<lparr>videos := splice1 videoIndex (videos d)\<rparr>)\<rparr>
               in (case save env m1 of
                     (Inl e, m2) \<Rightarrow> (Inl e, m2)
                   | (Inr _, m2) \<Rightarrow> (Inr (Some deletedVideo), m2))))"

section \<open>downloader.ts: Downloader\<close>

text \<open>
  The state of the process. \<open>activeDownloads\<close> (a Map keyed by item id, in insertion
  order), \<open>downloadQueue\<close> and \<open>isProcessingQueue\<close> are the fields of the class. The other
  fields are what the single-threaded event loop holds between two turns:
  \<open>starting\<close>, the calls of downloadVideo suspended at \<open>await fs.mkdir\<close>;
  \<open>running\<close>, the downloader processes that were spawned and have not closed;
  \<open>finishing\<close>, the \<open>close\<close> handlers of successful downloads suspended at their awaits
  (\<open>fs.access\<close>, \<open>fs.copyFile\<close>, checkSponsorBlockData), each with the output path
  it captured;
  \<open>drainWaiting\<close>, processQueue suspended at its one-second timer;
  \<open>folders\<close>, the item folders on disk; and \<open>probed\<close>, the log of the item ids passed
  to checkSponsorBlockData.
\<close>

record System =
  dbm :: DatabaseManager
  activeDownloads :: "(jsstring \<times> DownloadProgress) list"
  downloadQueue :: "QueuedVideo list"
  isProcessingQueue :: bool
  starting :: "QueuedVideo list"
  running :: "QueuedVideo list"
  finishing :: "(QueuedVideo \<times> jsstring) list"
  drainWaiting :: bool
  folders :: "jsstring set"
  probed :: "jsstring list"

text \<open>\<open>Map.prototype.set\<close> and \<open>Map.prototype.delete\<close>; \<open>size\<close> is the length of the list.\<close>

fun mapSet :: "jsstring \<Rightarrow> 'v \<Rightarrow> (jsstring \<times> 'v) list \<Rightarrow> (jsstring \<times> 'v) list" where
  "mapSet k v [] = [(k, v)]"
| "mapSet k v ((k', v') # kvs) = (if k' = k then (k, v) # kvs else (k', v') # mapSet k v kvs)"

definition mapDelete :: "jsstring \<Rightarrow> (jsstring \<times> 'v) list \<Rightarrow> (jsstring \<times> 'v) list" where
  "mapDelete k kvs = filter (\<lambda>kv. fst kv \<noteq> k) kvs"

definition getActiveDownloads :: "System \<Rightarrow> DownloadProgress list" where
  "getActiveDownloads s = map snd (activeDownloads s)"

definition getQueueLength :: "System \<Rightarrow> nat" where
  "getQueueLength s = length (downloadQueue s)"

text \<open>
  The loop of processQueue, from its test to the point where it gives the control back.
  When the running set is full it suspends at the timer. Otherwise it shifts the head of
  the queue and calls downloadVideo, which runs to its first \<open>await\<close> (\<open>fs.mkdir\<close>) and
  returns a promise: the job is then among \<open>starting\<close>, not yet in \<open>activeDownloads\<close>,
  and the loop goes on at once. When the queue is empty the flag is cleared.
\<close>

function drain :: "Config \<Rightarrow> System \<Rightarrow> System" where
  "drain config s =
     (case downloadQueue s of
        [] \<Rightarrow> s\<lparr>isProcessingQueue := False\<rparr>
      | video # rest \<Rightarrow>
          if length (activeDownloads s) \<ge> maxConcurrentDownloads config
          then s\<lparr>drainWaiting := True\<rparr>
          else drain config (s\<lparr>downloadQueue := rest, starting := starting s @ [video]\<rparr>))"
  by pat_completeness auto
termination
  by (relation "measure (\<lambda>(config, s). length (downloadQueue s))") auto

definition processQueue :: "Config \<Rightarrow> System \<Rightarrow> System" where
  "processQueue config s =
     (if isProcessingQueue s then s else drain config (s\<lparr>isProcessingQueue := True\<rparr>))"

text \<open>The timer of processQueue fires: the loop tests again.\<close>

definition timerFired :: "Config \<Rightarrow> System \<Rightarrow> System" where
  "timerFired config s =
     (if drainWaiting s then drain config (s\<lparr>drainWaiting := False\<rparr>) else s)"

text \<open>
  downloadVideo after \<open>await fs.mkdir\<close>, for the k-th suspended call: when mkdir failed
  the promise rejects (the error is logged by the caller's \<open>catch\<close>); otherwise the
  progress entry is stored in \<open>activeDownloads\<close> and the downloader process is spawned.
\<close>

definition downloadVideo_resume :: "Env \<Rightarrow> Config \<Rightarrow> nat \<Rightarrow> bool \<Rightarrow> System \<Rightarrow> System" where
  "downloadVideo_resume env config k mkdir_ok s =
     (if k < length (starting s)
      then (let video = starting s ! k;
                s1 = s\<lparr>starting := splice1 k (starting s)\<rparr>;
                videoFolder = path_join env (downloadPath config) (q_id video);
                progress = \<lparr>dp_videoId = q_id video, dp_title = q_title video,
                            dp_progress = 0, dp_status = Downloading, dp_error = None\<rparr>
            in if mkdir_ok
               then s1\<lparr>folders := insert videoFolder (folders s1),
                       activeDownloads := mapSet (q_id video) progress (activeDownloads s1),
                       running := running s1 @ [video]\<rparr>
               else s1)
      else s)"

text \<open>Decimal digits of a number, for the message of a failed download.\<close>

function showNat :: "nat \<Rightarrow> jsstring" where
  "showNat n = (if n < 10 then [48 + n] else showNat (n div 10) @ [48 + n mod 10])"
  by pat_completeness auto
termination
  by (relation "measure id") auto

text \<open>
  The loop over \<open>possibleExtensions\<close>: the first path that \<open>fs.access\<close> accepts, or the
  empty string.
\<close>

fun findOutput :: "Env \<Rightarrow> jsstring \<Rightarrow> jsstring \<Rightarrow> jsstring list \<Rightarrow> jsstring" where
  "findOutput env videoFolder sanitizedTitle [] = []"
| "findOutput env videoFolder sanitizedTitle (ext # exts) =
     (let testPath = path_join env videoFolder (sanitizedTitle @ js ''.'' @ ext)
      in if access_ok env testPath then testPath
         else findOutput env videoFolder sanitizedTitle exts)"

text \<open>
  The record the \<open>close\<close> handler passes to addVideo after exit code 0. \<open>outputPath0\<close> is
  the output path captured from the output (empty when none was): when it is empty the
  extensions are probed, and when that finds nothing either the path falls back to the
  title with the extension mp4. \<open>probeResult\<close> is the answer of the probe.
\<close>

definition completedRecord :: "Env \<Rightarrow> Config \<Rightarrow> QueuedVideo \<Rightarrow> jsstring \<Rightarrow> bool \<Rightarrow> Video" where
  "completedRecord env config video outputPath0 probeResult =
     (let sanitizedTitle = sanitizeFilename (q_title video);
          videoFolder = path_join env (downloadPath config) (q_id video);
          outputPath =
            (if outputPath0 = []
             then findOutput env videoFolder sanitizedTitle [js ''mp4'', js ''webm'', js ''mkv'']
             else outputPath0)
      in \<lparr>v_id = q_id video, playlistId = q_playlistId video,
          v_title = q_title video, downloadedAt = [],
          filepath =
            (if outputPath \<noteq> [] then outputPath
             else path_join env videoFolder (sanitizedTitle @ js ''.mp4'')),
          status = Completed, v_error = None,
          hasSponsorBlock = Some probeResult\<rparr>)"

text \<open>The record passed to addVideo after a failure, with its error message.\<close>

definition failedRecord :: "QueuedVideo \<Rightarrow> jsstring \<Rightarrow> Video" where
  "failedRecord video message =
     \<lparr>v_id = q_id video, playlistId = q_playlistId video,
      v_title = q_title video, downloadedAt = [],
      filepath = [], status = Failed, v_error = Some message,
      hasSponsorBlock = None\<rparr>"

definition exitMessage :: "nat option \<Rightarrow> jsstring" where
  "exitMessage code =
     js ''yt-dlp exited with code '' @ (case code of None \<Rightarrow> js ''null'' | Some c \<Rightarrow> showNat c)"

text \<open>
  The \<open>close\<close> handler of the k-th running process, with exit code \<open>code\<close> (\<open>None\<close>: killed by
  a signal) and the output path captured so far, up to its first \<open>await\<close>. The entry of the
  item is deleted from \<open>activeDownloads\<close>. After exit code 0 the handler then awaits
  \<open>fs.access\<close> or \<open>fs.copyFile\<close>: it is suspended, among \<open>finishing\<close>, and other turns can
  run before it adds its record. After another exit code it calls addVideo at once, which
  pushes the failed record in the same turn. The handler is not awaited by anyone: an
  error of addVideo is an unhandled rejection and changes nothing else in the state (with
  Node's default setting it then ends the process; the model keeps the state of that
  moment, in which the record is in memory and the write has not happened).
\<close>

definition downloadVideo_close ::
  "Env \<Rightarrow> Config \<Rightarrow> jsstring \<Rightarrow> nat \<Rightarrow> nat option \<Rightarrow> jsstring \<Rightarrow> System \<Rightarrow> System" where
  "downloadVideo_close env config now k code outputPath0 s =
     (if k < length (running s)
      then (let video = running s ! k;
                s1 = s\<lparr>running := splice1 k (running s),
                       activeDownloads := mapDelete (q_id video) (activeDownloads s)\<rparr>
            in if code = Some 0
               then s1\<lparr>finishing := finishing s1 @ [(video, outputPath0)]\<rparr>
               else s1\<lparr>dbm := snd (addVideo env now
                                       (failedRecord video (exitMessage code)) (dbm s1))\<rparr>)
      else s)"

text \<open>
  The rest of the \<open>close\<close> handler of a successful download, for the j-th suspended
  handler: the output file is looked up when no path was captured, the thumbnail is
  copied (a failure is logged), the SponsorBlock service is probed, and the completed
  record is added. Between these awaits the handler reads and writes nothing but its own
  variables, so a turn that runs between two of them has the same effect as one that runs
  before this step; the step stands for the handler from its first \<open>await\<close> to the call
  of addVideo.
\<close>

definition downloadVideo_finish :: "Env \<Rightarrow> Config \<Rightarrow> jsstring \<Rightarrow> nat \<Rightarrow> System \<Rightarrow> System" where
  "downloadVideo_finish env config now j s =
     (if j < length (finishing s)
      then (let video = fst (finishing s ! j);
                outputPath0 = snd (finishing s ! j);
                hasSponsorBlock =
                  checkSponsorBlockData (sponsorBlock env (length (probed s)) (q_id video));
                s1 = s\<lparr>finishing := splice1 j (finishing s),
                       probed := probed s @ [q_id video]\<rparr>
            in s1\<lparr>dbm := snd (addVideo env now
                                    (completedRecord env config video outputPath0 hasSponsorBlock)
                                    (dbm s1))\<rparr>)
      else s)"

text \<open>The \<open>error\<close> handler of the k-th running process (the spawn failed).\<close>

definition downloadVideo_error ::
  "Env \<Rightarrow> jsstring \<Rightarrow> nat \<Rightarrow> jsstring \<Rightarrow> System \<Rightarrow> System" where
  "downloadVideo_error env now k message s =
     (if k < length (running s)
      then (let video = running s ! k;
                s1 = s\<lparr>running := splice1 k (running s),
                       activeDownloads := mapDelete (q_id video) (activeDownloads s)\<rparr>
            in s1\<lparr>dbm := snd (addVideo env now (failedRecord video message) (dbm s1))\<rparr>)
      else s)"

text \<open>\<open>fs.rm(videoFolder, { recursive: true, force: true })\<close>: the state after it.\<close>

definition rmFolder :: "Env \<Rightarrow> jsstring \<Rightarrow> System \<Rightarrow> System" where
  "rmFolder env videoFolder s =
     (if rm_ok env videoFolder then s\<lparr>folders := folders s - {videoFolder}\<rparr> else s)"

text \<open>
  The loop of syncPlaylist over \<open>videosToDelete\<close>: a failure to remove the folder is
  caught and logged; an error of deleteVideo is not caught and ends syncPlaylist.
\<close>

fun deleteRemoved :: "Env \<Rightarrow> Config \<Rightarrow> Video list \<Rightarrow> System \<Rightarrow> (error + unit) \<times> System" where
  "deleteRemoved env config [] s = (Inr (), s)"
| "deleteRemoved env config (video # vs) s =
     (let videoFolder = path_join env (downloadPath config) (v_id video);
          s1 = rmFolder env videoFolder s
      in case deleteVideo env (v_id video) (dbm s1) of
           (Inl e, m) \<Rightarrow> (Inl e, s1\<lparr>dbm := m\<rparr>)
         | (Inr _, m) \<Rightarrow> deleteRemoved env config vs (s1\<lparr>dbm := m\<rparr>))"

text \<open>\<open>playlistInfo.entries.filter((video) => !db.isVideoDownloaded(video.id))\<close>.\<close>

fun filterNew :: "DatabaseManager \<Rightarrow> VideoInfo list \<Rightarrow> error + VideoInfo list" where
  "filterNew m [] = Inr []"
| "filterNew m (video # vs) =
     (case isVideoDownloaded (vi_id video) m of
        Inl e \<Rightarrow> Inl e
      | Inr downloaded \<Rightarrow>
          (case filterNew m vs of
             Inl e \<Rightarrow> Inl e
           | Inr rest \<Rightarrow> Inr (if downloaded then rest else video # rest)))"

text \<open>\<open>{ ...video, playlistId: playlist.id }\<close>.\<close>

definition enqueued :: "jsstring \<Rightarrow> VideoInfo \<Rightarrow> QueuedVideo" where
  "enqueued pid video =
     \<lparr>q_id = vi_id video, q_title = vi_title video, q_url = vi_url video, q_playlistId = pid\<rparr>"

text \<open>
  syncPlaylist, in the order of its statements. First the stored title is updated when
  the remote title differs.
\<close>

definition updateTitle ::
  "Env \<Rightarrow> PlaylistInfo \<Rightarrow> Playlist \<Rightarrow> DatabaseManager
     \<Rightarrow> (error + Playlist option) \<times> DatabaseManager" where
  "updateTitle env playlistInfo playlist m =
     (if pi_title playlistInfo \<noteq> pl_title playlist
      then updatePlaylist env (pl_id playlist)
             (noUpdates\<lparr>u_title := Some (pi_title playlistInfo)\<rparr>) m
      else (Inr None, m))"

text \<open>
  Then the records of this playlist whose id the remote listing no longer has are
  deleted.
\<close>

definition deleteRemovedVideos ::
  "Env \<Rightarrow> Config \<Rightarrow> PlaylistInfo \<Rightarrow> Playlist \<Rightarrow> System \<Rightarrow> (error + unit) \<times> System" where
  "deleteRemovedVideos env config playlistInfo playlist s =
     (case getVideos (Some (pl_id playlist)) (dbm s) of
        Inl e \<Rightarrow> (Inl e, s)
      | Inr dbVideos \<Rightarrow>
          let currentVideoIds = set (map vi_id (entries playlistInfo));
              videosToDelete = filter (\<lambda>v. v_id v \<notin> currentVideoIds) dbVideos
          in deleteRemoved env config videosToDelete s)"

text \<open>
  Then the entries without a completed record are pushed onto the queue, the timestamp
  of the playlist is updated, and processQueue is started unless it is running.
\<close>

definition enqueueNewVideos ::
  "Env \<Rightarrow> Config \<Rightarrow> jsstring \<Rightarrow> PlaylistInfo \<Rightarrow> Playlist \<Rightarrow> System
     \<Rightarrow> (error + nat) \<times> System" where
  "enqueueNewVideos env config now playlistInfo playlist s =
     (case filterNew (dbm s) (entries playlistInfo) of
        Inl e \<Rightarrow> (Inl e, s)
      | Inr newVideos \<Rightarrow>
          let s3 = s\<lparr>downloadQueue :=
                      downloadQueue s @ map (enqueued (pl_id playlist)) newVideos\<rparr>
          in (case updatePlaylist env (pl_id playlist)
                     (noUpdates\<lparr>u_lastChecked := Some (Some now)\<rparr>) (dbm s3) of
                (Inl e, m4) \<Rightarrow> (Inl e, s3\<lparr>dbm := m4\<rparr>)
              | (Inr _, m4) \<Rightarrow>
                  let s4 = s3\<lparr>dbm := m4\<rparr>
                  in (Inr (length newVideos),
                      if \<not> isProcessingQueue s4 then processQueue config s4 else s4)))"

text \<open>
  syncPlaylist. \<open>listing\<close> is what getPlaylistInfo does (it throws, or it returns the title
  and the entries of the remote playlist), \<open>now\<close> is \<open>new Date().toISOString()\<close>. The
  result is the value the promise resolves to, or the error it rejects with, and the
  state the call leaves.
\<close>

definition syncPlaylist ::
  "Env \<Rightarrow> Config \<Rightarrow> jsstring \<Rightarrow> error + PlaylistInfo \<Rightarrow> Playlist \<Rightarrow> System
     \<Rightarrow> (error + nat) \<times> System" where
  "syncPlaylist env config now listing playlist s =
     (case listing of
        Inl e \<Rightarrow> (Inl e, s)
      | Inr playlistInfo \<Rightarrow>
          (case updateTitle env playlistInfo playlist (dbm s) of
             (Inl e, m1) \<Rightarrow> (Inl e, s\<lparr>dbm := m1\<rparr>)
           | (Inr _, m1) \<Rightarrow>
               (case deleteRemovedVideos env config playlistInfo playlist (s\<lparr>dbm := m1\<rparr>) of
                  (Inl e, s2) \<Rightarrow> (Inl e, s2)
                | (Inr _, s2) \<Rightarrow> enqueueNewVideos env config now playlistInfo playlist s2)))"

text \<open>
  redownloadVideo: a failure to remove the folder is thrown again; then the record is
  deleted and the item is pushed onto the queue.
\<close>

definition redownloadVideo :: "Env \<Rightarrow> Config \<Rightarrow> Video \<Rightarrow> System \<Rightarrow> (error + unit) \<times> System" where
  "redownloadVideo env config video s =
     (let videoFolder = path_join env (downloadPath config) (v_id video)
      in if \<not> rm_ok env videoFolder then (Inl FsError, s)
         else (let s1 = rmFolder env videoFolder s
               in case deleteVideo env (v_id video) (dbm s1) of
                    (Inl e, m) \<Rightarrow> (Inl e, s1\<lparr>dbm := m\<rparr>)
                  | (Inr _, m) \<Rightarrow>
                      let s2 = s1\<lparr>dbm := m,
                                  downloadQueue := downloadQueue s1 @
                                    [\<lparr>q_id = v_id video, q_title = v_title video,
                                      q_url = js ''https://www.youtube.com/watch?v='' @ v_id video,
                                      q_playlistId = playlistId video\<rparr>]\<rparr>
                      in (Inr (), if \<not> isProcessingQueue s2
                                  then processQueue config s2 else s2)))"

text \<open>
  The loop of checkAndUpdateSponsorBlockVideos over the selected records: each one is
  probed; when the probe answers true the record is re-downloaded, and an error of
  redownloadVideo is caught and logged.
\<close>

fun recheck :: "Env \<Rightarrow> Config \<Rightarrow> Video list \<Rightarrow> System \<Rightarrow> System" where
  "recheck env config [] s = s"
| "recheck env config (video # vs) s =
     (let hasSponsorBlock =
            checkSponsorBlockData (sponsorBlock env (length (probed s)) (v_id video));
          s1 = s\<lparr>probed := probed s @ [v_id video]\<rparr>
      in recheck env config vs
           (if hasSponsorBlock then snd (redownloadVideo env config video s1) else s1))"

text \<open>The filter of checkAndUpdateSponsorBlockVideos: \<open>v.hasSponsorBlock === false\<close>.\<close>

definition videosWithoutSponsorBlock :: "Video list \<Rightarrow> Video list" where
  "videosWithoutSponsorBlock allVideos =
     filter (\<lambda>v. status v = Completed \<and> hasSponsorBlock v = Some False) allVideos"

definition checkAndUpdateSponsorBlockVideos ::
  "Env \<Rightarrow> Config \<Rightarrow> System \<Rightarrow> (error + unit) \<times> System" where
  "checkAndUpdateSponsorBlockVideos env config s =
     (case getVideos None (dbm s) of
        Inl e \<Rightarrow> (Inl e, s)
      | Inr allVideos \<Rightarrow>
          if length (videosWithoutSponsorBlock allVideos) = 0 then (Inr (), s)
          else (Inr (), recheck env config (videosWithoutSponsorBlock allVideos) s))"

section \<open>The turns of the event loop\<close>

text \<open>
  What can happen to the running process: a reconciliation of one playlist (from the
  scheduler, from syncAllPlaylists or from a request), the timer of processQueue, the
  end of an \<open>fs.mkdir\<close>, the close or the spawn error of a downloader process, the
  end of the \<open>close\<close> handler of a successful download, the SponsorBlock sweep, and the
  requests that add, remove or update a playlist.
\<close>

datatype Event =
    SyncPlaylist jsstring "error + PlaylistInfo" Playlist
  | TimerFired
  | MkdirDone nat bool
  | ProcessClosed jsstring nat "nat option" jsstring
  | ProcessError jsstring nat jsstring
  | DownloadFinished jsstring nat
  | SponsorBlockSweep
  | AddPlaylist jsstring Playlist
  | RemovePlaylist jsstring
  | UpdatePlaylist jsstring PlaylistUpdates

fun step :: "Env \<Rightarrow> Config \<Rightarrow> Event \<Rightarrow> System \<Rightarrow> System" where
  "step env config (SyncPlaylist now listing playlist) s =
     snd (syncPlaylist env config now listing playlist s)"
| "step env config TimerFired s = timerFired config s"
| "step env config (MkdirDone k ok) s = downloadVideo_resume env config k ok s"
| "step env config (ProcessClosed now k code outputPath) s =
     downloadVideo_close env config now k code outputPath s"
| "step env config (ProcessError now k message) s = downloadVideo_error env now k message s"
| "step env config (DownloadFinished now j) s = downloadVideo_finish env config now j s"
| "step env config SponsorBlockSweep s = snd (checkAndUpdateSponsorBlockVideos env config s)"
| "step env config (AddPlaylist newId playlist) s =
     s\<lparr>dbm := snd (addPlaylist env newId playlist (dbm s))\<rparr>"
| "step env config (RemovePlaylist i) s = s\<lparr>dbm := snd (removePlaylist env i (dbm s))\<rparr>"
| "step env config (UpdatePlaylist i updates) s =
     s\<lparr>dbm := snd (updatePlaylist env i updates (dbm s))\<rparr>"

fun run :: "Env \<Rightarrow> Config \<Rightarrow> Event list \<Rightarrow> System \<Rightarrow> System" where
  "run env config [] s = s"
| "run env config (ev # evs) s = run env config evs (step env config ev s)"

text \<open>The records of the in-memory store and of the database file.\<close>

definition recordsOf :: "DatabaseManager \<Rightarrow> Video list" where
  "recordsOf m = (case db m of None \<Rightarrow> [] | Some d \<Rightarrow> videos d)"

definition storedVideos :: "System \<Rightarrow> Video list" where
  "storedVideos s = recordsOf (dbm s)"

definition persistedVideos :: "System \<Rightarrow> Video list" where
  "persistedVideos s = (case dbFile (dbm s) of None \<Rightarrow> [] | Some d \<Rightarrow> videos d)"

text \<open>The playlist that an update of the id \<open>i\<close> finds in the store.\<close>

definition storedPlaylist :: "jsstring \<Rightarrow> DatabaseManager \<Rightarrow> Playlist option" where
  "storedPlaylist i m =
     (case db m of
        None \<Rightarrow> None
      | Some d \<Rightarrow>
          (case findIndex (\<lambda>p. pl_id p = i) (playlists d) of
             None \<Rightarrow> None
           | Some k \<Rightarrow> Some (playlists d ! k)))"

text \<open>At most one record with status completed for each item id.\<close>

definition uniqueCompleted :: "Video list \<Rightarrow> bool" where
  "uniqueCompleted vs = distinct (map v_id (filter (\<lambda>v. status v = Completed) vs))"

text \<open>Every record with status completed has a non-empty artifact path.\<close>

definition completedHavePath :: "Video list \<Rightarrow> bool" where
  "completedHavePath vs = list_all (\<lambda>v. status v = Completed \<longrightarrow> filepath v \<noteq> []) vs"

text \<open>A process that has loaded an empty database and has nothing in flight.\<close>

definition started :: System where
  "started =
     \<lparr>dbm = \<lparr>db = Some DEFAULT_DATABASE, dbFile = Some DEFAULT_DATABASE, writes = 1\<rparr>,
      activeDownloads = [], downloadQueue = [], isProcessingQueue = False,
      starting = [], running = [], finishing = [], drainWaiting = False, folders = {},
      probed = []\<rparr>"

section \<open>Example data\<close>

definition exampleVideo :: "jsstring \<Rightarrow> VideoStatus \<Rightarrow> bool option \<Rightarrow> Video" where
  "exampleVideo i st flag =
     \<lparr>v_id = i, playlistId = js ''p1'', v_title = js ''title'', downloadedAt = js ''t0'',
      filepath = (if st = Completed then js ''/d/x.mp4'' else []), status = st,
      v_error = None, hasSponsorBlock = flag\<rparr>"

definition exampleStore :: "Video list \<Rightarrow> DatabaseManager" where
  "exampleStore vs =
     \<lparr>db = Some \<lparr>playlists = [], videos = vs\<rparr>,
      dbFile = Some \<lparr>playlists = [], videos = vs\<rparr>, writes = 1\<rparr>"

text \<open>
  An environment in which every write and every folder removal succeeds, no output file
  is found by \<open>fs.access\<close>, and the SponsorBlock service answers 404.
\<close>

definition exampleEnv :: Env where
  "exampleEnv =
     \<lparr>save_ok = (\<lambda>n. True), rm_ok = (\<lambda>p. True), access_ok = (\<lambda>p. False),
      sponsorBlock = (\<lambda>n i. Response 404 None),
      path_join = (\<lambda>a b. a @ js ''/'' @ b)\<rparr>"

text \<open>A title of 201 code units: 199 letters a, a space, a letter b.\<close>

definition longTitle :: jsstring where
  "longTitle = replicate 199 97 @ [32, 98]"

definition exampleConfig :: Config where
  "exampleConfig =
     \<lparr>downloadPath = js ''/d'', maxConcurrentDownloads = 2,
      sponsorBlockCategories = [js ''sponsor'']\<rparr>"

definition examplePlaylist :: Playlist where
  "examplePlaylist =
     \<lparr>pl_id = js ''p1'', pl_url = js ''u'', pl_title = js ''T'', lastChecked = None,
      enabled = True\<rparr>"

text \<open>A remote listing with the playlist's stored title and the given item ids.\<close>

definition exampleInfo :: "jsstring list \<Rightarrow> PlaylistInfo" where
  "exampleInfo ids =
     \<lparr>pi_id = js ''L'', pi_title = js ''T'',
      entries = map (\<lambda>i. \<lparr>vi_id = i, vi_title = js ''t'', vi_url = js ''w''\<rparr>) ids\<rparr>"

definition exampleListing :: "jsstring list \<Rightarrow> error + PlaylistInfo" where
  "exampleListing ids = Inr (exampleInfo ids)"

text \<open>A process that has loaded a database with the given playlists and records.\<close>

definition exampleSystem :: "Playlist list \<Rightarrow> Video list \<Rightarrow> System" where
  "exampleSystem ps vs =
     started\<lparr>dbm := \<lparr>db = Some \<lparr>playlists = ps, videos = vs\<rparr>,
                      dbFile = Some \<lparr>playlists = ps, videos = vs\<rparr>, writes = 1\<rparr>\<rparr>"

text \<open>An environment in which every write of the database file fails.\<close>

definition failingEnv :: Env where
  "failingEnv = exampleEnv\<lparr>save_ok := (\<lambda>n. False)\<rparr>"

text \<open>An environment in which the writes fail from the fourth one on.\<close>

definition diskFullEnv :: Env where
  "diskFullEnv = exampleEnv\<lparr>save_ok := (\<lambda>n. n < 3)\<rparr>"

text \<open>
  A playlist with three new items is reconciled, then the three \<open>fs.mkdir\<close> calls end.
\<close>

definition burstRun :: "Event list" where
  "burstRun =
     [AddPlaylist (js ''p1'') examplePlaylist,
      SyncPlaylist (js ''t1'') (exampleListing [js ''a'', js ''b'', js ''c'']) examplePlaylist,
      MkdirDone 0 True, MkdirDone 0 True, MkdirDone 0 True]"

text \<open>
  A playlist with one new item is reconciled twice in succession; both downloads of the
  item are started, both end with exit code 0 and both handlers add their record.
\<close>

definition duplicateRun :: "Event list" where
  "duplicateRun =
     [AddPlaylist (js ''p1'') examplePlaylist,
      SyncPlaylist (js ''t1'') (exampleListing [js ''a'']) examplePlaylist,
      SyncPlaylist (js ''t2'') (exampleListing [js ''a'']) examplePlaylist,
      MkdirDone 0 True, MkdirDone 0 True,
      ProcessClosed (js ''t3'') 0 (Some 0) (js ''/d/a/t.mp4''),
      ProcessClosed (js ''t4'') 0 (Some 0) (js ''/d/a/t.mp4''),
      DownloadFinished (js ''t5'') 0, DownloadFinished (js ''t6'') 0]"

text \<open>A playlist with one new item is reconciled and the download ends with exit code 0.\<close>

definition downloadRun :: "Event list" where
  "downloadRun =
     [AddPlaylist (js ''p1'') examplePlaylist,
      SyncPlaylist (js ''t1'') (exampleListing [js ''a'']) examplePlaylist,
      MkdirDone 0 True,
      ProcessClosed (js ''t3'') 0 (Some 0) (js ''/d/a/t.mp4''),
      DownloadFinished (js ''t4'') 0]"

text \<open>
  An environment in which the SponsorBlock service has no data at the first probe and has
  data from the second probe on.
\<close>

definition lateDataEnv :: Env where
  "lateDataEnv =
     exampleEnv\<lparr>sponsorBlock :=
       (\<lambda>n i. if n = 0 then Response 404 None else Response 200 (Some (JArray [JNull])))\<rparr>"

text \<open>
  One item, one thing at a time: its first download fails (exit code 1), the next
  reconciliation enqueues it again and the download succeeds while the service has no
  data; then the sweep finds data and re-downloads the item, and that download succeeds.
\<close>

definition sweepRun :: "Event list" where
  "sweepRun =
     [AddPlaylist (js ''p1'') examplePlaylist,
      SyncPlaylist (js ''t1'') (exampleListing [js ''a'']) examplePlaylist,
      MkdirDone 0 True,
      ProcessClosed (js ''t2'') 0 (Some 1) [],
      SyncPlaylist (js ''t3'') (exampleListing [js ''a'']) examplePlaylist,
      MkdirDone 0 True,
      ProcessClosed (js ''t4'') 0 (Some 0) (js ''/d/a/t.mp4''),
      DownloadFinished (js ''t5'') 0,
      SponsorBlockSweep,
      MkdirDone 0 True,
      ProcessClosed (js ''t6'') 0 (Some 0) (js ''/d/a/t.mp4''),
      DownloadFinished (js ''t7'') 0]"


section \<open>The record store\<close>

lemma findIndex_None_iff: "findIndex P xs = None \<longleftrightarrow> (\<forall>x\<in>set xs. \<not> P x)"
  by (induction xs) auto

text \<open>
  Claim C10. deleteVideo, called on a loaded store with an id that no record carries,
  returns null and leaves the manager as it was: the in-memory database, the database
  file and the number of writes are unchanged.
\<close>

theorem deleteVideo_missing:
  assumes "db m = Some d" and "\<forall>v\<in>set (videos d). v_id v \<noteq> videoId"
  shows "deleteVideo env videoId m = (Inr None, m)"
proof -
  have "findIndex (\<lambda>v. v_id v = videoId) (videos d) = None"
    using assms(2) by (simp add: findIndex_None_iff)
  then show ?thesis
    using assms(1) by (simp add: deleteVideo_def getDatabase_def)
qed

theorem deleteVideo_missing_witness:
  "db (exampleStore [exampleVideo (js ''a'') Completed (Some True)])
     = Some \<lparr>playlists = [], videos = [exampleVideo (js ''a'') Completed (Some True)]\<rparr>
   \<and> deleteVideo exampleEnv (js ''b'')
         (exampleStore [exampleVideo (js ''a'') Completed (Some True)])
       = (Inr None, exampleStore [exampleVideo (js ''a'') Completed (Some True)])"
proof -
  have h1: "db (exampleStore [exampleVideo (js ''a'') Completed (Some True)])
     = Some \<lparr>playlists = [], videos = [exampleVideo (js ''a'') Completed (Some True)]\<rparr>"
    by (simp add: exampleStore_def)
  have h2: "\<forall>v\<in>set (videos \<lparr>playlists = [],
                         videos = [exampleVideo (js ''a'') Completed (Some True)]\<rparr>).
         v_id v \<noteq> js ''b''"
    by (simp add: exampleVideo_def js_def)
  show ?thesis using h1 deleteVideo_missing [OF h1 h2, of exampleEnv] by simp
qed

section \<open>The progress parser\<close>

lemma parseProgress_example:
  "parseProgress (js ''[download]  45.5% of 123.45MiB at 1.23MiB/s ETA 00:12'') = Some 45.5"
  by (simp add: parseProgress_def js_def matchProgressAt_def isSpace_def isDigit_def
      parseFloat_def digitsVal_def)

lemma destination_example:
  "destination (js ''[download] Destination: /x/y/z.mp4'') = Some (js ''/x/y/z.mp4'')"
  by (simp add: destination_def js_def matchDestAt_def isLineTerminator_def trim_def
      isSpace_def)

lemma stripPrefix_Some_iff: "stripPrefix p s = Some r \<longleftrightarrow> s = p @ r"
  by (induction p s rule: stripPrefix.induct) auto

lemma takeWhile_run:
  assumes "\<forall>c\<in>set xs. P c" and "ys = [] \<or> \<not> P (hd ys)"
  shows "takeWhile P (xs @ ys) = xs" and "dropWhile P (xs @ ys) = ys"
proof -
  from assms(2) have t: "takeWhile P ys = []" and d: "dropWhile P ys = ys"
    by (cases ys; simp)+
  from assms(1) t show "takeWhile P (xs @ ys) = xs" by (simp add: takeWhile_append2)
  from assms(1) d show "dropWhile P (xs @ ys) = ys" by (simp add: dropWhile_append2)
qed

lemma digit_not_space: "isDigit c \<Longrightarrow> \<not> isSpace c"
  by (auto simp: isDigit_def isSpace_def)

lemma not_digit_chars: "\<not> isDigit 46" "\<not> isDigit 37"
  by (simp_all add: isDigit_def)

lemma matchProgressAt_complete:
  assumes "progressPatternAt s"
  shows "matchProgressAt s \<noteq> None"
proof -
  from assms obtain ws d1 dot d2 rest where
    s: "s = js ''[download]'' @ ws @ d1 @ dot @ d2 @ 37 # rest"
    and ws: "ws \<noteq> []" "\<forall>c\<in>set ws. isSpace c"
    and d1: "d1 \<noteq> []" "\<forall>c\<in>set d1. isDigit c"
    and dot: "dot = [] \<or> dot = [46]"
    and d2: "\<forall>c\<in>set d2. isDigit c"
    unfolding progressPatternAt_def by blast
  let ?r = "ws @ d1 @ dot @ d2 @ 37 # rest"
  let ?r1 = "d1 @ dot @ d2 @ 37 # rest"
  have sp: "stripPrefix (js ''[download]'') s = Some ?r"
    using s by (simp add: stripPrefix_Some_iff)
  have "\<not> isSpace (hd ?r1)" using d1 by (cases d1) (auto simp: digit_not_space)
  then have w: "takeWhile isSpace ?r = ws" "dropWhile isSpace ?r = ?r1"
    using takeWhile_run [of ws isSpace ?r1] ws(2) by simp_all
  show ?thesis
  proof (cases "dot = []")
    case True
    have a: "takeWhile isDigit ?r1 = d1 @ d2" "dropWhile isDigit ?r1 = 37 # rest"
      using takeWhile_run [of "d1 @ d2" isDigit "37 # rest"] d1(2) d2 True not_digit_chars
      by auto
    show ?thesis
      using ws(1) d1(1) by (simp add: matchProgressAt_def sp w a Let_def not_digit_chars)
  next
    case False
    with dot have dot46: "dot = [46]" by simp
    have a: "takeWhile isDigit ?r1 = d1" "dropWhile isDigit ?r1 = 46 # d2 @ 37 # rest"
      using takeWhile_run [of d1 isDigit "46 # d2 @ 37 # rest"] d1(2) dot46 not_digit_chars
      by auto
    have b: "takeWhile isDigit (d2 @ 37 # rest) = d2" "dropWhile isDigit (d2 @ 37 # rest) = 37 # rest"
      using takeWhile_run [of d2 isDigit "37 # rest"] d2 not_digit_chars by auto
    show ?thesis
      using ws(1) d1(1) by (simp add: matchProgressAt_def sp w a b Let_def not_digit_chars)
  qed
qed

lemma matchProgressAt_sound:
  assumes "matchProgressAt s \<noteq> None"
  shows "progressPatternAt s"
proof -
  from assms obtain r where sp: "stripPrefix (js ''[download]'') s = Some r"
    by (auto simp: matchProgressAt_def split: option.splits)
  then have s: "s = js ''[download]'' @ r" by (simp add: stripPrefix_Some_iff)
  define ws where "ws = takeWhile isSpace r"
  define r1 where "r1 = dropWhile isSpace r"
  define d1 where "d1 = takeWhile isDigit r1"
  define r2 where "r2 = dropWhile isDigit r1"
  define dot where "dot = (case r2 of [] \<Rightarrow> [] | c # x \<Rightarrow> if c = 46 then [46::nat] else [])"
  define r3 where "r3 = drop (length dot) r2"
  define d2 where "d2 = takeWhile isDigit r3"
  define r4 where "r4 = dropWhile isDigit r3"
  have eq: "matchProgressAt s =
      (if ws = [] \<or> d1 = [] then None
       else (case r4 of [] \<Rightarrow> None
             | c # x \<Rightarrow> if c = 37 then Some (d1 @ dot @ d2) else None))"
    unfolding matchProgressAt_def sp option.case Let_def
      ws_def r1_def d1_def r2_def dot_def r3_def d2_def r4_def
    by (rule refl)
  from assms have ok: "ws \<noteq> [] \<and> d1 \<noteq> [] \<and> (\<exists>rest. r4 = 37 # rest)"
    unfolding eq by (cases r4) (auto split: if_splits)
  then obtain rest where r4: "r4 = 37 # rest" by blast
  have "r = ws @ r1" by (simp add: ws_def r1_def)
  moreover have "r1 = d1 @ r2" by (simp add: d1_def r2_def)
  moreover have "r2 = dot @ r3"
    by (cases r2) (auto simp: dot_def r3_def)
  moreover have "r3 = d2 @ r4" by (simp add: d2_def r4_def)
  ultimately have "s = js ''[download]'' @ ws @ d1 @ dot @ d2 @ 37 # rest"
    using s r4 by simp
  moreover have "\<forall>c\<in>set ws. isSpace c" unfolding ws_def by (auto dest: set_takeWhileD)
  moreover have "\<forall>c\<in>set d1. isDigit c" unfolding d1_def by (auto dest: set_takeWhileD)
  moreover have "\<forall>c\<in>set d2. isDigit c" unfolding d2_def by (auto dest: set_takeWhileD)
  moreover have "dot = [] \<or> dot = [46]" by (cases r2) (auto simp: dot_def)
  ultimately show ?thesis using ok unfolding progressPatternAt_def by blast
qed

lemma searchProgress_matches: "searchProgress line \<noteq> None \<longleftrightarrow> matchesProgressPattern line"
proof (induction line)
  case Nil
  show ?case
    using matchProgressAt_sound [of "[]"] matchProgressAt_complete [of "[]"]
    by (auto simp: matchesProgressPattern_def)
next
  case (Cons c cs)
  have "matchesProgressPattern (c # cs)
          \<longleftrightarrow> progressPatternAt (c # cs) \<or> matchesProgressPattern cs"
    by (auto simp: matchesProgressPattern_def Cons_eq_append_conv)
  moreover have "searchProgress (c # cs) \<noteq> None
          \<longleftrightarrow> matchProgressAt (c # cs) \<noteq> None \<or> searchProgress cs \<noteq> None"
    by (auto split: option.splits)
  ultimately show ?case
    using Cons.IH matchProgressAt_sound [of "c # cs"] matchProgressAt_complete [of "c # cs"]
    by blast
qed

lemma matchDestAt_iff: "matchDestAt s \<noteq> None \<longleftrightarrow> destinationPatternAt s"
proof
  assume "matchDestAt s \<noteq> None"
  then obtain r where sp: "stripPrefix (js ''[download] Destination: '') s = Some r"
    and m: "takeWhile (\<lambda>c. \<not> isLineTerminator c) r \<noteq> []"
    by (auto simp: matchDestAt_def Let_def split: option.splits if_splits)
  let ?m = "takeWhile (\<lambda>c. \<not> isLineTerminator c) r"
  have "s = js ''[download] Destination: '' @ ?m @ dropWhile (\<lambda>c. \<not> isLineTerminator c) r"
    using sp by (simp add: stripPrefix_Some_iff)
  moreover have "\<forall>c\<in>set ?m. \<not> isLineTerminator c" by (auto dest: set_takeWhileD)
  ultimately show "destinationPatternAt s" using m unfolding destinationPatternAt_def by blast
next
  assume "destinationPatternAt s"
  then obtain m rest where s: "s = js ''[download] Destination: '' @ m @ rest"
    and m: "m \<noteq> []" "\<forall>c\<in>set m. \<not> isLineTerminator c"
    unfolding destinationPatternAt_def by blast
  have sp: "stripPrefix (js ''[download] Destination: '') s = Some (m @ rest)"
    using s by (simp add: stripPrefix_Some_iff)
  have "takeWhile (\<lambda>c. \<not> isLineTerminator c) (m @ rest)
          = m @ takeWhile (\<lambda>c. \<not> isLineTerminator c) rest"
    using m(2) by (simp add: takeWhile_append2)
  with m(1) show "matchDestAt s \<noteq> None" by (simp add: matchDestAt_def sp Let_def)
qed

lemma destMatch_matches: "destMatch line \<noteq> None \<longleftrightarrow> matchesDestinationPattern line"
proof (induction line)
  case Nil
  show ?case using matchDestAt_iff [of "[]"] by (auto simp: matchesDestinationPattern_def)
next
  case (Cons c cs)
  have "matchesDestinationPattern (c # cs)
          \<longleftrightarrow> destinationPatternAt (c # cs) \<or> matchesDestinationPattern cs"
    by (auto simp: matchesDestinationPattern_def Cons_eq_append_conv)
  moreover have "destMatch (c # cs) \<noteq> None
          \<longleftrightarrow> matchDestAt (c # cs) \<noteq> None \<or> destMatch cs \<noteq> None"
    by (auto split: option.splits)
  ultimately show ?case using Cons.IH matchDestAt_iff [of "c # cs"] by blast
qed

lemma parseProgress_None_iff: "parseProgress line = None \<longleftrightarrow> \<not> matchesProgressPattern line"
  using searchProgress_matches [of line] by (auto simp: parseProgress_def split: option.splits)

lemma destination_None_iff: "destination line = None \<longleftrightarrow> \<not> matchesDestinationPattern line"
  using destMatch_matches [of line] by (auto simp: destination_def)


lemma onStdoutData_no_match:
  assumes "\<not> matchesProgressPattern line" and "\<not> matchesDestinationPattern line"
  shows "onStdoutData line (p, out) =
           (if str_includes line (js ''100%'')
               \<or> str_includes line (js ''has already been downloaded'')
            then 100 else p, out)"
proof -
  from assms have "parseProgress line = None" and "destination line = None"
    by (simp_all add: parseProgress_None_iff destination_None_iff)
  then show ?thesis by (simp add: onStdoutData_def)
qed

text \<open>
  Claim C4, as stated, fails on the destination: the pattern of the output handler is
  \<open>[download] Destination: (.+)\<close>, so the line \<open>Destination: /x/y/z.mp4\<close> without the
  \<open>[download]\<close> tag yields no destination. It also fails on the percentage that the
  handler keeps: the line \<open>[Merger] Merging formats into 100% real.mp4\<close> matches
  neither pattern, and the handler sets the percentage to 100 on it, since the line
  contains \<open>100%\<close>.
\<close>

theorem progress_parser_bare_destination:
  "destination (js ''Destination: /x/y/z.mp4'') = None
   \<and> parseProgress (js ''[Merger] Merging formats into 100% real.mp4'') = None
   \<and> destination (js ''[Merger] Merging formats into 100% real.mp4'') = None
   \<and> fst (onStdoutData (js ''[Merger] Merging formats into 100% real.mp4'') (0, []))
       = 100"
  by (simp add: onStdoutData_def parseProgress_def destination_def js_def matchDestAt_def
      matchProgressAt_def)

text \<open>
  Claim C4, amended. The progress line yields the percentage 45.5; the line
  \<open>[download] Destination: /x/y/z.mp4\<close> yields the destination \<open>/x/y/z.mp4\<close>.
  parseProgress yields no percentage exactly on the lines that do not match the progress
  pattern, and the handler's destination pattern yields no destination exactly on the
  lines that do not match it. On a line that matches neither pattern the output handler
  leaves the captured path as it is, and leaves the percentage as it is unless the line
  contains \<open>100%\<close> or \<open>has already been downloaded\<close>, when it sets the percentage to
  100. The extractors and the handler are total functions: no line makes them fail.
\<close>

theorem progress_parser_signals:
  "parseProgress (js ''[download]  45.5% of 123.45MiB at 1.23MiB/s ETA 00:12'') = Some 45.5
   \<and> destination (js ''[download] Destination: /x/y/z.mp4'') = Some (js ''/x/y/z.mp4'')
   \<and> (\<forall>line. (parseProgress line = None \<longleftrightarrow> \<not> matchesProgressPattern line)
             \<and> (destination line = None \<longleftrightarrow> \<not> matchesDestinationPattern line))
   \<and> (\<forall>line p out.
          \<not> matchesProgressPattern line \<and> \<not> matchesDestinationPattern line
          \<longrightarrow> onStdoutData line (p, out) =
                (if str_includes line (js ''100%'')
                    \<or> str_includes line (js ''has already been downloaded'')
                 then 100 else p, out))"
  using parseProgress_example destination_example parseProgress_None_iff
    destination_None_iff onStdoutData_no_match
  by blast

theorem progress_parser_signals_witness:
  "\<not> matchesProgressPattern (js ''[download] Resuming download at byte 12345'')
   \<and> \<not> matchesDestinationPattern (js ''[download] Resuming download at byte 12345'')
   \<and> parseProgress (js ''[download] Resuming download at byte 12345'') = None
   \<and> destination (js ''[download] Resuming download at byte 12345'') = None
   \<and> onStdoutData (js ''[download] Resuming download at byte 12345'') (30, js ''/x/y/z.mp4'')
       = (30, js ''/x/y/z.mp4'')"
proof -
  let ?l = "js ''[download] Resuming download at byte 12345''"
  have p: "parseProgress ?l = None"
    by (simp add: parseProgress_def js_def matchProgressAt_def isSpace_def isDigit_def)
  have d: "destination ?l = None"
    by (simp add: destination_def js_def matchDestAt_def)
  have i: "\<not> str_includes ?l (js ''100%'')"
    "\<not> str_includes ?l (js ''has already been downloaded'')"
    by (simp_all add: js_def)
  from p d progress_parser_signals
  have m: "\<not> matchesProgressPattern ?l" "\<not> matchesDestinationPattern ?l"
    by blast+
  with progress_parser_signals
  have "onStdoutData ?l (30, js ''/x/y/z.mp4'') =
          (if str_includes ?l (js ''100%'')
              \<or> str_includes ?l (js ''has already been downloaded'')
           then 100 else 30, js ''/x/y/z.mp4'')"
    by blast
  with i have "onStdoutData ?l (30, js ''/x/y/z.mp4'') = (30, js ''/x/y/z.mp4'')"
    by simp
  with p d m show ?thesis by blast
qed

section \<open>The SponsorBlock probe\<close>

text \<open>
  Claim C6, as stated, fails on the https implementation: it accepts the status 200
  only, so a response 201 with a non-empty array resolves to false.
\<close>

theorem probe_other_2xx:
  "\<not> checkSponsorBlockData (Response 201 (Some (JArray [JNull])))"
  by (simp add: checkSponsorBlockData_def)

text \<open>
  Claim C6, amended. The probe is a total function to a boolean. In the https
  implementation every status other than 200 (404, every non-2xx status, and the other
  2xx statuses), a body that does not parse, a network error, a timeout and an exception
  while sending each resolve to false, and a response 200 whose body is a non-empty array
  resolves to true. In the fetch implementation every non-2xx status, a body that does
  not parse, a network error and an exception each resolve to false, and a response 200
  whose body is a non-empty array resolves to true.
\<close>

theorem probe_results:
  "(\<forall>st body. st \<noteq> 200 \<longrightarrow> \<not> checkSponsorBlockData (Response st body))
   \<and> \<not> checkSponsorBlockData (Response 200 None)
   \<and> \<not> checkSponsorBlockData RequestError
   \<and> \<not> checkSponsorBlockData Timeout
   \<and> \<not> checkSponsorBlockData SetupThrows
   \<and> (\<forall>xs. xs \<noteq> [] \<longrightarrow> checkSponsorBlockData (Response 200 (Some (JArray xs))))
   \<and> (\<forall>st body. \<not> (200 \<le> st \<and> st \<le> 299)
         \<longrightarrow> \<not> checkSponsorBlockData_fetch (Response st body))
   \<and> (\<forall>st. \<not> checkSponsorBlockData_fetch (Response st None))
   \<and> \<not> checkSponsorBlockData_fetch RequestError
   \<and> \<not> checkSponsorBlockData_fetch SetupThrows
   \<and> (\<forall>xs. xs \<noteq> [] \<longrightarrow> checkSponsorBlockData_fetch (Response 200 (Some (JArray xs))))"
  by (simp add: checkSponsorBlockData_def checkSponsorBlockData_fetch_def nonEmptyArray_def)

theorem probe_results_witness:
  "\<not> checkSponsorBlockData (Response 404 None)
   \<and> \<not> checkSponsorBlockData (Response 500 (Some (JArray [JNull])))
   \<and> checkSponsorBlockData (Response 200 (Some (JArray [JNull])))
   \<and> \<not> checkSponsorBlockData_fetch (Response 503 None)
   \<and> checkSponsorBlockData_fetch (Response 200 (Some (JArray [JNull])))"
  using probe_results by simp

section \<open>sanitizeFilename\<close>

lemma isSpace_32 [simp]: "isSpace 32"
  by (simp add: isSpace_def)

lemma set_collapseWs: "set (collapseWs xs) \<subseteq> insert 32 (set xs)"
proof (induction xs rule: collapseWs.induct)
  case 1
  then show ?case by simp
next
  case (2 c cs)
  show ?case
  proof (cases "isSpace c")
    case True
    with 2 have "set (collapseWs (dropWhile isSpace cs)) \<subseteq> insert 32 (set (dropWhile isSpace cs))"
      by simp
    moreover have "set (dropWhile isSpace cs) \<subseteq> set cs"
      by (auto dest: set_dropWhileD)
    ultimately show ?thesis using True by auto
  next
    case False
    with 2 show ?thesis by auto
  qed
qed

lemma set_trim: "set (trim xs) \<subseteq> set xs"
  by (auto simp: trim_def dest!: set_dropWhileD)

lemma replaceInvalid_valid: "c \<in> set (replaceInvalid s) \<Longrightarrow> c \<notin> set invalidChars"
  by (auto simp: replaceInvalid_def invalidChars_def split: if_splits)

lemma sanitizeFilename_valid:
  assumes "c \<in> set (sanitizeFilename s)"
  shows "c \<notin> set invalidChars"
proof -
  from assms have "c \<in> set (trim (collapseWs (replaceInvalid s)))"
    unfolding sanitizeFilename_def by (rule in_set_takeD)
  then have "c \<in> set (collapseWs (replaceInvalid s))"
    using set_trim by blast
  then have "c = 32 \<or> c \<in> set (replaceInvalid s)"
    using set_collapseWs by blast
  then show ?thesis
  proof
    assume "c = 32"
    then show ?thesis by (simp add: invalidChars_def)
  next
    assume "c \<in> set (replaceInvalid s)"
    then show ?thesis by (rule replaceInvalid_valid)
  qed
qed

lemma wsNormal_Cons:
  "wsNormal (c # ys) \<longleftrightarrow>
     (isSpace c \<longrightarrow> c = 32 \<and> (ys \<noteq> [] \<longrightarrow> \<not> isSpace (hd ys))) \<and> wsNormal ys"
  by (cases ys) auto

lemma hd_collapseWs:
  "xs \<noteq> [] \<Longrightarrow> \<not> isSpace (hd xs) \<Longrightarrow> collapseWs xs \<noteq> [] \<and> hd (collapseWs xs) = hd xs"
  by (cases xs) auto

lemma wsNormal_collapseWs: "wsNormal (collapseWs xs)"
proof (induction xs rule: collapseWs.induct)
  case 1
  then show ?case by simp
next
  case (2 c cs)
  show ?case
  proof (cases "isSpace c")
    case True
    let ?zs = "dropWhile isSpace cs"
    have n: "wsNormal (collapseWs ?zs)" using 2 True by simp
    have "collapseWs ?zs \<noteq> [] \<Longrightarrow> \<not> isSpace (hd (collapseWs ?zs))"
    proof -
      assume ne: "collapseWs ?zs \<noteq> []"
      then have "?zs \<noteq> []" by (metis collapseWs.simps(1))
      then have "\<not> isSpace (hd ?zs)" by (rule hd_dropWhile)
      with \<open>?zs \<noteq> []\<close> show ?thesis using hd_collapseWs by metis
    qed
    with n True show ?thesis by (simp add: wsNormal_Cons)
  next
    case False
    with 2 show ?thesis by (simp add: wsNormal_Cons)
  qed
qed

lemma collapseWs_fix: "wsNormal xs \<Longrightarrow> collapseWs xs = xs"
proof (induction xs rule: collapseWs.induct)
  case 1
  then show ?case by simp
next
  case (2 c cs)
  show ?case
  proof (cases "isSpace c")
    case True
    from "2.prems" True have c: "c = 32" and h: "cs \<noteq> [] \<longrightarrow> \<not> isSpace (hd cs)"
      and n: "wsNormal cs"
      by (auto simp: wsNormal_Cons)
    from h have d: "dropWhile isSpace cs = cs" by (cases cs) auto
    from "2.IH"(1) True d n have "collapseWs cs = cs" by simp
    with True c d show ?thesis by simp
  next
    case False
    with 2 show ?thesis by (simp add: wsNormal_Cons)
  qed
qed

lemma wsNormal_append_right: "wsNormal (xs @ ys) \<Longrightarrow> wsNormal ys"
  by (induction xs) (auto simp: wsNormal_Cons)

lemma wsNormal_append_left: "wsNormal (xs @ ys) \<Longrightarrow> wsNormal xs"
proof (induction xs)
  case Nil
  then show ?case by simp
next
  case (Cons a xs)
  then show ?case by (cases xs) (auto simp: wsNormal_Cons)
qed

lemma wsNormal_dropWhile: "wsNormal xs \<Longrightarrow> wsNormal (dropWhile P xs)"
proof -
  assume "wsNormal xs"
  then have "wsNormal (takeWhile P xs @ dropWhile P xs)" by simp
  then show ?thesis by (rule wsNormal_append_right)
qed

lemma dropWhile_rev_prefix: "xs = rev (dropWhile P (rev xs)) @ rev (takeWhile P (rev xs))"
proof -
  have "rev (dropWhile P (rev xs)) @ rev (takeWhile P (rev xs))
        = rev (takeWhile P (rev xs) @ dropWhile P (rev xs))"
    by (simp only: rev_append)
  also have "\<dots> = xs" by simp
  finally show ?thesis by simp
qed

lemma wsNormal_trim: "wsNormal xs \<Longrightarrow> wsNormal (trim xs)"
proof -
  assume "wsNormal xs"
  then have n: "wsNormal (dropWhile isSpace xs)" by (rule wsNormal_dropWhile)
  let ?t = "dropWhile isSpace xs"
  have "?t = trim xs @ rev (takeWhile isSpace (rev ?t))"
    unfolding trim_def by (rule dropWhile_rev_prefix)
  with n have "wsNormal (trim xs @ rev (takeWhile isSpace (rev ?t)))" by simp
  then show ?thesis by (rule wsNormal_append_left)
qed

lemma dropWhile_snoc_keep:
  "\<not> P a \<Longrightarrow> dropWhile P (ys @ [a]) \<noteq> [] \<and> last (dropWhile P (ys @ [a])) = a"
  by (induction ys) auto

lemma trim_ends: "trim s = [] \<or> (\<not> isSpace (hd (trim s)) \<and> \<not> isSpace (last (trim s)))"
proof (cases "dropWhile isSpace s")
  case Nil
  have "trim s = rev (dropWhile isSpace (rev (dropWhile isSpace s)))"
    by (simp add: trim_def)
  also have "\<dots> = []" unfolding Nil by simp
  finally show ?thesis by simp
next
  case (Cons a t)
  then have a: "\<not> isSpace a"
    using hd_dropWhile [of isSpace s] by simp
  let ?d = "dropWhile isSpace (rev t @ [a])"
  from a have d: "?d \<noteq> [] \<and> last ?d = a" by (rule dropWhile_snoc_keep)
  have tr: "trim s = rev ?d" using Cons by (simp add: trim_def)
  from d have "hd (rev ?d) = a" by (simp add: hd_rev)
  moreover from d have "\<not> isSpace (hd ?d)" by (simp add: hd_dropWhile)
  then have "\<not> isSpace (last (rev ?d))" using d by (simp add: last_rev)
  ultimately show ?thesis using a tr by simp
qed

lemma trim_id:
  assumes "xs = [] \<or> (\<not> isSpace (hd xs) \<and> \<not> isSpace (last xs))"
  shows "trim xs = xs"
proof (cases xs)
  case Nil
  then show ?thesis by (simp add: trim_def)
next
  case (Cons a t)
  with assms have h: "\<not> isSpace a" and l: "\<not> isSpace (last xs)" by auto
  from h Cons have 1: "dropWhile isSpace xs = xs" by simp
  from Cons have "rev xs \<noteq> []" by simp
  moreover from l have "\<not> isSpace (hd (rev xs))" by (metis hd_rev)
  ultimately have 2: "dropWhile isSpace (rev xs) = rev xs"
    by (cases "rev xs") auto
  show ?thesis by (simp add: trim_def 1 2)
qed

lemma replaceInvalid_fix: "\<forall>c\<in>set xs. c \<notin> set invalidChars \<Longrightarrow> replaceInvalid xs = xs"
  by (simp add: replaceInvalid_def map_idI)

lemma wsNormal_sanitizeFilename: "wsNormal (sanitizeFilename s)"
proof -
  let ?t = "trim (collapseWs (replaceInvalid s))"
  have "wsNormal ?t" by (simp add: wsNormal_trim wsNormal_collapseWs)
  then have "wsNormal (take 200 ?t @ drop 200 ?t)" by simp
  then show ?thesis unfolding sanitizeFilename_def by (rule wsNormal_append_left)
qed

lemma sanitizeFilename_hd:
  "sanitizeFilename s \<noteq> [] \<Longrightarrow> \<not> isSpace (hd (sanitizeFilename s))"
proof -
  let ?t = "trim (collapseWs (replaceInvalid s))"
  assume "sanitizeFilename s \<noteq> []"
  then have ne: "?t \<noteq> []" by (auto simp: sanitizeFilename_def)
  then have "\<not> isSpace (hd ?t)" using trim_ends [of "collapseWs (replaceInvalid s)"] by simp
  moreover have "hd (take 200 ?t) = hd ?t" using ne by (cases ?t) auto
  ultimately show ?thesis by (simp add: sanitizeFilename_def)
qed

lemma sanitizeFilename_fix:
  assumes "r = sanitizeFilename s" and "r = [] \<or> \<not> isSpace (last r)"
  shows "sanitizeFilename r = r"
proof -
  have v: "\<forall>c\<in>set r. c \<notin> set invalidChars"
    using assms(1) sanitizeFilename_valid by blast
  have n: "wsNormal r" using assms(1) wsNormal_sanitizeFilename by simp
  have e: "r = [] \<or> (\<not> isSpace (hd r) \<and> \<not> isSpace (last r))"
    using assms sanitizeFilename_hd by blast
  have l: "length r \<le> 200" using assms(1) by (simp add: sanitizeFilename_def)
  have "sanitizeFilename r = take 200 (trim (collapseWs r))"
    using v by (simp add: sanitizeFilename_def replaceInvalid_fix)
  also have "\<dots> = take 200 (trim r)" using n by (simp add: collapseWs_fix)
  also have "\<dots> = take 200 r" using e by (simp add: trim_id)
  also have "\<dots> = r" using l by simp
  finally show ?thesis .
qed

lemma sanitizeFilename_untruncated:
  assumes "length (trim (collapseWs (replaceInvalid s))) \<le> 200"
  shows "sanitizeFilename s = [] \<or> \<not> isSpace (last (sanitizeFilename s))"
proof -
  have "sanitizeFilename s = trim (collapseWs (replaceInvalid s))"
    using assms by (simp add: sanitizeFilename_def)
  then show ?thesis using trim_ends [of "collapseWs (replaceInvalid s)"] by auto
qed

lemma length_trim_le: "length (trim xs) \<le> length xs"
proof -
  have "length (dropWhile isSpace (rev (dropWhile isSpace xs)))
          \<le> length (rev (dropWhile isSpace xs))"
    by (rule length_dropWhile_le)
  moreover have "length (dropWhile isSpace xs) \<le> length xs"
    by (rule length_dropWhile_le)
  ultimately show ?thesis by (simp add: trim_def)
qed

lemma last_take_nth:
  assumes "0 < n" and "n \<le> length xs"
  shows "last (take n xs) = xs ! (n - 1)"
proof -
  from assms have ne: "take n xs \<noteq> []" by auto
  from assms have l: "length (take n xs) = n" by simp
  have "last (take n xs) = take n xs ! (length (take n xs) - 1)"
    using ne by (rule last_conv_nth)
  also have "\<dots> = take n xs ! (n - 1)" unfolding l ..
  also have "\<dots> = xs ! (n - 1)" using assms(1) by simp
  finally show ?thesis .
qed

lemma sanitizeFilename_twice:
  assumes "r = sanitizeFilename s"
  shows "sanitizeFilename r = trim r"
proof -
  have v: "\<forall>c\<in>set r. c \<notin> set invalidChars"
    using assms sanitizeFilename_valid by blast
  have n: "wsNormal r" using assms wsNormal_sanitizeFilename by simp
  have "length r \<le> 200" using assms by (simp add: sanitizeFilename_def)
  then have l: "length (trim r) \<le> 200" using length_trim_le [of r] by simp
  have "sanitizeFilename r = take 200 (trim (collapseWs r))"
    using v by (simp add: sanitizeFilename_def replaceInvalid_fix)
  also have "\<dots> = take 200 (trim r)" using n by (simp add: collapseWs_fix)
  also have "\<dots> = trim r" using l by simp
  finally show ?thesis .
qed

lemma sanitizeFilename_fix_iff:
  "sanitizeFilename (sanitizeFilename s) = sanitizeFilename s
     \<longleftrightarrow> \<not> (sanitizeFilename s \<noteq> [] \<and> isSpace (last (sanitizeFilename s)))"
proof
  assume "sanitizeFilename (sanitizeFilename s) = sanitizeFilename s"
  then have "trim (sanitizeFilename s) = sanitizeFilename s"
    using sanitizeFilename_twice [of "sanitizeFilename s" s] by simp
  then show "\<not> (sanitizeFilename s \<noteq> [] \<and> isSpace (last (sanitizeFilename s)))"
    using trim_ends [of "sanitizeFilename s"] by auto
next
  assume "\<not> (sanitizeFilename s \<noteq> [] \<and> isSpace (last (sanitizeFilename s)))"
  then have "sanitizeFilename s = [] \<or> \<not> isSpace (last (sanitizeFilename s))" by blast
  then show "sanitizeFilename (sanitizeFilename s) = sanitizeFilename s"
    by (intro sanitizeFilename_fix) auto
qed

lemma sanitizeFilename_last_iff:
  "sanitizeFilename s \<noteq> [] \<and> isSpace (last (sanitizeFilename s))
     \<longleftrightarrow> 200 < length (trim (collapseWs (replaceInvalid s)))
          \<and> isSpace (trim (collapseWs (replaceInvalid s)) ! 199)"
proof (cases "200 < length (trim (collapseWs (replaceInvalid s)))")
  case True
  let ?t = "trim (collapseWs (replaceInvalid s))"
  from True have "last (take 200 ?t) = ?t ! (200 - 1)"
    by (intro last_take_nth) simp_all
  moreover from True have "take 200 ?t \<noteq> []" by auto
  ultimately show ?thesis using True by (simp add: sanitizeFilename_def)
next
  case False
  then have "length (trim (collapseWs (replaceInvalid s))) \<le> 200" by simp
  then have "sanitizeFilename s = [] \<or> \<not> isSpace (last (sanitizeFilename s))"
    by (rule sanitizeFilename_untruncated)
  with False show ?thesis by blast
qed

text \<open>
  Claim C9, amended. For every input the result has at most 200 code units, contains
  none of the characters \<open>< > : " / \ | ? *\<close> and does not start with whitespace. It
  ends with whitespace exactly when the substring cuts right after a whitespace
  character: the title, after replacement, collapsing and trimming, has more than 200
  code units and the one at index 199 is whitespace. In every other case, whether the
  substring cuts or not, sanitizeFilename returns its own result unchanged; in that one
  case it does not.
\<close>

theorem sanitizeFilename_properties:
  "length (sanitizeFilename s) \<le> 200
   \<and> (\<forall>c\<in>set (sanitizeFilename s). c \<notin> set invalidChars)
   \<and> (sanitizeFilename s \<noteq> [] \<longrightarrow> \<not> isSpace (hd (sanitizeFilename s)))
   \<and> ((sanitizeFilename s \<noteq> [] \<and> isSpace (last (sanitizeFilename s)))
        \<longleftrightarrow> (200 < length (trim (collapseWs (replaceInvalid s)))
              \<and> isSpace (trim (collapseWs (replaceInvalid s)) ! 199)))
   \<and> (sanitizeFilename (sanitizeFilename s) = sanitizeFilename s
        \<longleftrightarrow> \<not> (200 < length (trim (collapseWs (replaceInvalid s)))
                \<and> isSpace (trim (collapseWs (replaceInvalid s)) ! 199)))"
proof (intro conjI)
  show "length (sanitizeFilename s) \<le> 200" by (simp add: sanitizeFilename_def)
  show "\<forall>c\<in>set (sanitizeFilename s). c \<notin> set invalidChars"
    using sanitizeFilename_valid by blast
  show "sanitizeFilename s \<noteq> [] \<longrightarrow> \<not> isSpace (hd (sanitizeFilename s))"
    using sanitizeFilename_hd by blast
  show "(sanitizeFilename s \<noteq> [] \<and> isSpace (last (sanitizeFilename s)))
        \<longleftrightarrow> (200 < length (trim (collapseWs (replaceInvalid s)))
              \<and> isSpace (trim (collapseWs (replaceInvalid s)) ! 199))"
    by (rule sanitizeFilename_last_iff)
  show "sanitizeFilename (sanitizeFilename s) = sanitizeFilename s
        \<longleftrightarrow> \<not> (200 < length (trim (collapseWs (replaceInvalid s)))
                \<and> isSpace (trim (collapseWs (replaceInvalid s)) ! 199))"
    unfolding sanitizeFilename_fix_iff sanitizeFilename_last_iff ..
qed

lemma collapseWs_letters:
  "\<not> isSpace a \<Longrightarrow> collapseWs (replicate n a @ ys) = replicate n a @ collapseWs ys"
  by (induction n) auto

lemma not_isSpace_letters: "\<not> isSpace 97" "\<not> isSpace 98"
  by (simp_all add: isSpace_def)

lemma hd_letters: "hd (replicate 199 (97::nat) @ ys) = 97"
  by (simp add: hd_append)

lemma longTitle_sanitized: "sanitizeFilename longTitle = replicate 199 97 @ [32]"
proof -
  have r: "replaceInvalid longTitle = longTitle"
    by (simp add: replaceInvalid_def longTitle_def invalidChars_def)
  have c: "collapseWs longTitle = longTitle"
    by (simp add: longTitle_def collapseWs_letters not_isSpace_letters)
  have "longTitle \<noteq> []" by (simp add: longTitle_def)
  moreover have "hd longTitle = 97" unfolding longTitle_def by (rule hd_letters)
  moreover have "last longTitle = 98" by (simp add: longTitle_def)
  ultimately have t: "trim longTitle = longTitle"
    by (intro trim_id) (simp add: not_isSpace_letters)
  have "take 200 longTitle = replicate 199 97 @ [32]"
    by (simp add: longTitle_def)
  with r c t show ?thesis by (simp add: sanitizeFilename_def)
qed

text \<open>
  Claim C9, as stated, fails when the substring cuts right after a space: the title
  \<open>longTitle\<close> is cut to 199 letters and a trailing space, and a second application
  trims that space away.
\<close>

theorem sanitizeFilename_truncated_space:
  "isSpace (last (sanitizeFilename longTitle))
   \<and> sanitizeFilename (sanitizeFilename longTitle) \<noteq> sanitizeFilename longTitle"
proof
  show "isSpace (last (sanitizeFilename longTitle))"
    by (simp add: longTitle_sanitized)
next
  let ?r = "replicate 199 (97::nat) @ [32]"
  have "length (sanitizeFilename ?r) \<le> length (trim (collapseWs (replaceInvalid ?r)))"
    by (simp add: sanitizeFilename_def)
  moreover have "replaceInvalid ?r = ?r"
    by (simp add: replaceInvalid_def invalidChars_def)
  moreover have "collapseWs ?r = ?r"
    by (simp add: collapseWs_letters not_isSpace_letters)
  moreover have "length (trim ?r) \<le> 199"
  proof -
    have d: "dropWhile isSpace ?r = ?r"
      using hd_letters [of "[32]"] not_isSpace_letters(1)
      by (subst dropWhile_eq_self_iff) simp
    have "length (dropWhile isSpace (rev ?r)) \<le> 199"
      using length_dropWhile_le [of isSpace "replicate 199 97"] by simp
    then show ?thesis by (simp only: trim_def d length_rev)
  qed
  ultimately have "length (sanitizeFilename ?r) \<le> 199" by simp
  then have "sanitizeFilename ?r \<noteq> ?r" by auto
  then show "sanitizeFilename (sanitizeFilename longTitle) \<noteq> sanitizeFilename longTitle"
    unfolding longTitle_sanitized .
qed

lemma letters_trimmed: "trim (collapseWs (replaceInvalid (replicate 300 97))) = replicate 300 97"
proof -
  have r: "replaceInvalid (replicate 300 97) = replicate 300 97"
    by (simp add: replaceInvalid_def invalidChars_def)
  have c: "collapseWs (replicate 300 97) = replicate 300 97"
    using collapseWs_letters [of 97 300 "[]"] not_isSpace_letters by simp
  have "trim (replicate 300 97) = replicate 300 97"
    by (intro trim_id) (simp add: not_isSpace_letters)
  with r c show ?thesis by simp
qed

theorem sanitizeFilename_properties_witness:
  "sanitizeFilename (js ''  What? A  title  '') = js ''What- A title''
   \<and> sanitizeFilename (sanitizeFilename (js ''  What? A  title  ''))
       = sanitizeFilename (js ''  What? A  title  '')
   \<and> sanitizeFilename (replicate 300 97) = replicate 200 97
   \<and> \<not> isSpace (last (sanitizeFilename (replicate 300 97)))
   \<and> sanitizeFilename (sanitizeFilename (replicate 300 97))
       = sanitizeFilename (replicate 300 97)"
proof -
  have h: "length (trim (collapseWs (replaceInvalid (js ''  What? A  title  '')))) \<le> 200"
    by (simp add: js_def replaceInvalid_def invalidChars_def isSpace_def trim_def)
  have v: "sanitizeFilename (js ''  What? A  title  '') = js ''What- A title''"
    by (simp add: sanitizeFilename_def js_def replaceInvalid_def invalidChars_def
        isSpace_def trim_def)
  from h have "\<not> (200 < length (trim (collapseWs (replaceInvalid (js ''  What? A  title  ''))))
       \<and> isSpace (trim (collapseWs (replaceInvalid (js ''  What? A  title  ''))) ! 199))"
    by simp
  with sanitizeFilename_properties [of "js ''  What? A  title  ''"]
  have i: "sanitizeFilename (sanitizeFilename (js ''  What? A  title  ''))
       = sanitizeFilename (js ''  What? A  title  '')" by blast
  have c: "sanitizeFilename (replicate 300 97) = replicate 200 97"
    by (simp add: sanitizeFilename_def letters_trimmed)
  note sanitizeFilename_properties [of "replicate 300 97"]
  moreover have "\<not> isSpace (trim (collapseWs (replaceInvalid (replicate 300 97))) ! 199)"
    by (simp add: letters_trimmed not_isSpace_letters)
  moreover from c have "sanitizeFilename (replicate 300 97) \<noteq> []" by simp
  ultimately have j: "\<not> isSpace (last (sanitizeFilename (replicate 300 97)))
       \<and> sanitizeFilename (sanitizeFilename (replicate 300 97))
           = sanitizeFilename (replicate 300 97)" by blast
  from v i c j show ?thesis by blast
qed

section \<open>The store and the event loop: lemmas\<close>

declare drain.simps [simp del]

lemma subseq_splice1: "subseq (splice1 i xs) xs"
proof (induction xs arbitrary: i)
  case Nil
  then show ?case by (simp add: splice1_def)
next
  case (Cons x xs)
  show ?case
  proof (cases i)
    case 0
    then show ?thesis by (auto simp: splice1_def)
  next
    case (Suc j)
    with Cons [of j] show ?thesis by (simp add: splice1_def)
  qed
qed

lemma findIndex_Some_lt: "findIndex P xs = Some k \<Longrightarrow> k < length xs \<and> P (xs ! k)"
  by (induction xs arbitrary: k) (auto split: if_splits)

lemma findIndex_update:
  "findIndex P xs = Some k \<Longrightarrow> P y \<Longrightarrow> findIndex P (xs[k := y]) = Some k"
  by (induction xs arbitrary: k) (auto split: if_splits)

lemma findIndex_update_None:
  "findIndex P xs = Some k \<Longrightarrow> (P y \<longleftrightarrow> P (xs ! k)) \<Longrightarrow> findIndex P (xs[k := y]) = Some k"
  by (simp add: findIndex_update findIndex_Some_lt)

subsection \<open>The in-memory database after each operation of the manager\<close>

lemma db_save: "db (snd (save env m)) = db m"
  by (simp add: save_def split: option.splits)

lemma db_deleteVideo:
  "db (snd (deleteVideo env i m)) =
     map_option (\<lambda>d. d\<lparr>videos :=
        (case findIndex (\<lambda>v. v_id v = i) (videos d) of
           None \<Rightarrow> videos d | Some k \<Rightarrow> splice1 k (videos d))\<rparr>) (db m)"
  by (auto simp: deleteVideo_def getDatabase_def save_def Let_def split: option.splits prod.splits sum.splits)

lemma db_updatePlaylist:
  "db (snd (updatePlaylist env i u m)) =
     map_option (\<lambda>d. d\<lparr>playlists :=
        (case findIndex (\<lambda>p. pl_id p = i) (playlists d) of
           None \<Rightarrow> playlists d | Some k \<Rightarrow> (playlists d)[k := assign (playlists d ! k) u])\<rparr>) (db m)"
  by (auto simp: updatePlaylist_def getDatabase_def save_def Let_def split: option.splits prod.splits sum.splits)

lemma db_addVideo:
  "db (snd (addVideo env now v m)) =
     map_option (\<lambda>d. d\<lparr>videos := videos d @ [v\<lparr>downloadedAt := now\<rparr>]\<rparr>) (db m)"
  by (auto simp: addVideo_def getDatabase_def save_def Let_def split: option.splits prod.splits sum.splits)

lemma db_addPlaylist:
  "db (snd (addPlaylist env newId p m)) =
     map_option (\<lambda>d. d\<lparr>playlists := playlists d @ [p\<lparr>pl_id := newId\<rparr>]\<rparr>) (db m)"
  by (auto simp: addPlaylist_def getDatabase_def save_def Let_def split: option.splits prod.splits sum.splits)

lemma db_removePlaylist:
  "db (snd (removePlaylist env i m)) =
     map_option (\<lambda>d.
        if length (filter (\<lambda>p. pl_id p \<noteq> i) (playlists d)) < length (playlists d)
        then d\<lparr>playlists := filter (\<lambda>p. pl_id p \<noteq> i) (playlists d),
               videos := filter (\<lambda>v. playlistId v \<noteq> i) (videos d)\<rparr>
        else d\<lparr>playlists := filter (\<lambda>p. pl_id p \<noteq> i) (playlists d)\<rparr>) (db m)"
  by (auto simp: removePlaylist_def getDatabase_def save_def Let_def split: option.splits prod.splits sum.splits)

subsection \<open>The records after each operation\<close>

lemma recordsOf_deleteVideo: "subseq (recordsOf (snd (deleteVideo env i m))) (recordsOf m)"
  by (auto simp: recordsOf_def db_deleteVideo subseq_splice1 split: option.splits)

lemma recordsOf_updatePlaylist: "recordsOf (snd (updatePlaylist env i u m)) = recordsOf m"
  by (auto simp: recordsOf_def db_updatePlaylist split: option.splits)

lemma recordsOf_addPlaylist: "recordsOf (snd (addPlaylist env newId p m)) = recordsOf m"
  by (auto simp: recordsOf_def db_addPlaylist split: option.splits)

lemma recordsOf_removePlaylist: "subseq (recordsOf (snd (removePlaylist env i m))) (recordsOf m)"
  by (auto simp: recordsOf_def db_removePlaylist split: option.splits)

lemma recordsOf_addVideo:
  "recordsOf (snd (addVideo env now v m)) =
     (if db m = None then [] else recordsOf m @ [v\<lparr>downloadedAt := now\<rparr>])"
  by (auto simp: recordsOf_def db_addVideo split: option.splits)

subsection \<open>What the drain loop keeps\<close>

lemma drain_Nil: "downloadQueue s = [] \<Longrightarrow> drain config s = s\<lparr>isProcessingQueue := False\<rparr>"
  by (subst drain.simps) simp

lemma drain_full:
  "downloadQueue s = video # rest
   \<Longrightarrow> length (activeDownloads s) \<ge> maxConcurrentDownloads config
   \<Longrightarrow> drain config s = s\<lparr>drainWaiting := True\<rparr>"
  by (subst drain.simps) simp

lemma drain_admit:
  "downloadQueue s = video # rest
   \<Longrightarrow> \<not> length (activeDownloads s) \<ge> maxConcurrentDownloads config
   \<Longrightarrow> drain config s
       = drain config (s\<lparr>downloadQueue := rest, starting := starting s @ [video]\<rparr>)"
  by (subst drain.simps) simp

lemma drain_keeps:
  "dbm (drain config s) = dbm s \<and> probed (drain config s) = probed s
   \<and> activeDownloads (drain config s) = activeDownloads s
   \<and> running (drain config s) = running s
   \<and> folders (drain config s) = folders s
   \<and> starting (drain config s) @ downloadQueue (drain config s)
        = starting s @ downloadQueue s"
proof (induction config s rule: drain.induct)
  case (1 config s)
  show ?case
  proof (cases "downloadQueue s")
    case Nil
    then show ?thesis by (simp add: drain_Nil)
  next
    case (Cons video rest)
    show ?thesis
    proof (cases "length (activeDownloads s) \<ge> maxConcurrentDownloads config")
      case True
      with Cons show ?thesis by (simp add: drain_full)
    next
      case False
      with Cons 1 [of video rest] show ?thesis by (simp add: drain_admit [of s video rest])
    qed
  qed
qed

lemma processQueue_keeps:
  "dbm (processQueue config s) = dbm s \<and> probed (processQueue config s) = probed s
   \<and> activeDownloads (processQueue config s) = activeDownloads s
   \<and> running (processQueue config s) = running s
   \<and> folders (processQueue config s) = folders s
   \<and> starting (processQueue config s) @ downloadQueue (processQueue config s)
        = starting s @ downloadQueue s"
  using drain_keeps [of config "s\<lparr>isProcessingQueue := True\<rparr>"]
  by (simp add: processQueue_def)

lemma timerFired_keeps:
  "dbm (timerFired config s) = dbm s \<and> probed (timerFired config s) = probed s
   \<and> running (timerFired config s) = running s"
  using drain_keeps [of config "s\<lparr>drainWaiting := False\<rparr>"]
  by (simp add: timerFired_def)

lemma rmFolder_keeps [simp]:
  "dbm (rmFolder env p s) = dbm s" "probed (rmFolder env p s) = probed s"
  "downloadQueue (rmFolder env p s) = downloadQueue s"
  "isProcessingQueue (rmFolder env p s) = isProcessingQueue s"
  "starting (rmFolder env p s) = starting s"
  by (simp_all add: rmFolder_def)

subsection \<open>Invariants of the manager carried through the composite operations\<close>

lemma deleteRemoved_invariant:
  assumes del: "\<And>i m. I m \<Longrightarrow> I (snd (deleteVideo env i m))"
  shows "I (dbm s) \<Longrightarrow> I (dbm (snd (deleteRemoved env config vs s)))"
proof (induction vs arbitrary: s)
  case Nil
  then show ?case by simp
next
  case (Cons video vs)
  let ?s1 = "rmFolder env (path_join env (downloadPath config) (v_id video)) s"
  obtain r m where dv: "deleteVideo env (v_id video) (dbm ?s1) = (r, m)"
    by (cases "deleteVideo env (v_id video) (dbm ?s1)")
  have "I (snd (deleteVideo env (v_id video) (dbm ?s1)))"
    using Cons.prems del by simp
  with dv have Im: "I m" by simp
  show ?case
  proof (cases r)
    case (Inl e)
    with dv Im show ?thesis by (simp add: Let_def)
  next
    case (Inr x)
    have "I (dbm (snd (deleteRemoved env config vs (?s1\<lparr>dbm := m\<rparr>))))"
      by (rule Cons.IH) (simp add: Im)
    with dv Inr show ?thesis by (simp add: Let_def)
  qed
qed

lemma updateTitle_invariant:
  assumes upd: "\<And>i u m. I m \<Longrightarrow> I (snd (updatePlaylist env i u m))"
  shows "I m \<Longrightarrow> I (snd (updateTitle env info playlist m))"
  using upd by (simp add: updateTitle_def)

lemma deleteRemovedVideos_invariant:
  assumes del: "\<And>i m. I m \<Longrightarrow> I (snd (deleteVideo env i m))"
  shows "I (dbm s) \<Longrightarrow> I (dbm (snd (deleteRemovedVideos env config info playlist s)))"
  using deleteRemoved_invariant [of I env, OF del]
  by (simp add: deleteRemovedVideos_def Let_def split: sum.splits)

lemma enqueueNewVideos_invariant:
  assumes upd: "\<And>i u m. I m \<Longrightarrow> I (snd (updatePlaylist env i u m))"
    and I: "I (dbm s)"
  shows "I (dbm (snd (enqueueNewVideos env config now info playlist s)))"
proof (cases "filterNew (dbm s) (entries info)")
  case (Inl e)
  with I show ?thesis by (simp add: enqueueNewVideos_def)
next
  case (Inr newVideos)
  let ?u = "updatePlaylist env (pl_id playlist)
              (noUpdates\<lparr>u_lastChecked := Some (Some now)\<rparr>) (dbm s)"
  have "I (snd ?u)" using I upd by simp
  moreover obtain r4 m4 where u: "?u = (r4, m4)" by (cases ?u)
  ultimately have "I m4" by simp
  with Inr u show ?thesis
    by (cases r4) (simp_all add: enqueueNewVideos_def Let_def processQueue_keeps)
qed

lemma syncPlaylist_invariant:
  assumes del: "\<And>i m. I m \<Longrightarrow> I (snd (deleteVideo env i m))"
    and upd: "\<And>i u m. I m \<Longrightarrow> I (snd (updatePlaylist env i u m))"
    and I: "I (dbm s)"
  shows "I (dbm (snd (syncPlaylist env config now listing playlist s)))"
proof (cases listing)
  case (Inl e)
  with I show ?thesis by (simp add: syncPlaylist_def)
next
  case (Inr info)
  obtain r1 m1 where t: "updateTitle env info playlist (dbm s) = (r1, m1)"
    by (cases "updateTitle env info playlist (dbm s)")
  have "I (snd (updateTitle env info playlist (dbm s)))"
    by (rule updateTitle_invariant [of I env, OF upd]) (simp_all add: I)
  with t have I1: "I m1" by simp
  show ?thesis
  proof (cases r1)
    case (Inl e)
    with Inr t I1 show ?thesis by (simp add: syncPlaylist_def)
  next
    case r1: (Inr x)
    obtain r2 s2 where dr: "deleteRemovedVideos env config info playlist (s\<lparr>dbm := m1\<rparr>) = (r2, s2)"
      by (cases "deleteRemovedVideos env config info playlist (s\<lparr>dbm := m1\<rparr>)")
    have "I (dbm (snd (deleteRemovedVideos env config info playlist (s\<lparr>dbm := m1\<rparr>))))"
      by (rule deleteRemovedVideos_invariant [of I env, OF del]) (simp_all add: I1)
    with dr have I2: "I (dbm s2)" by simp
    show ?thesis
    proof (cases r2)
      case (Inl e)
      with Inr t r1 dr I2 show ?thesis by (simp add: syncPlaylist_def)
    next
      case r2: (Inr y)
      have "I (dbm (snd (enqueueNewVideos env config now info playlist s2)))"
        by (rule enqueueNewVideos_invariant [of I env, OF upd]) (simp_all add: I2)
      with Inr t r1 dr r2 show ?thesis by (simp add: syncPlaylist_def)
    qed
  qed
qed

lemma redownloadVideo_invariant:
  assumes del: "\<And>i m. I m \<Longrightarrow> I (snd (deleteVideo env i m))"
    and I: "I (dbm s)"
  shows "I (dbm (snd (redownloadVideo env config video s)))"
proof (cases "rm_ok env (path_join env (downloadPath config) (v_id video))")
  case False
  with I show ?thesis by (simp add: redownloadVideo_def)
next
  case True
  let ?s1 = "rmFolder env (path_join env (downloadPath config) (v_id video)) s"
  obtain r m where dv: "deleteVideo env (v_id video) (dbm ?s1) = (r, m)"
    by (cases "deleteVideo env (v_id video) (dbm ?s1)")
  have "I (snd (deleteVideo env (v_id video) (dbm ?s1)))"
    using I del by simp
  with dv have "I m" by simp
  with True dv show ?thesis
    by (cases r) (simp_all add: redownloadVideo_def Let_def processQueue_keeps)
qed

lemma redownloadVideo_probed:
  "probed (snd (redownloadVideo env config video s)) = probed s"
proof (cases "rm_ok env (path_join env (downloadPath config) (v_id video))")
  case False
  then show ?thesis by (simp add: redownloadVideo_def)
next
  case True
  let ?s1 = "rmFolder env (path_join env (downloadPath config) (v_id video)) s"
  obtain r m where dv: "deleteVideo env (v_id video) (dbm ?s1) = (r, m)"
    by (cases "deleteVideo env (v_id video) (dbm ?s1)")
  with True show ?thesis
    by (cases r) (simp_all add: redownloadVideo_def Let_def processQueue_keeps)
qed

lemma redownloadVideo_running:
  "running (snd (redownloadVideo env config video s)) = running s"
proof (cases "rm_ok env (path_join env (downloadPath config) (v_id video))")
  case False
  then show ?thesis by (simp add: redownloadVideo_def)
next
  case True
  let ?s1 = "rmFolder env (path_join env (downloadPath config) (v_id video)) s"
  obtain r m where dv: "deleteVideo env (v_id video) (dbm ?s1) = (r, m)"
    by (cases "deleteVideo env (v_id video) (dbm ?s1)")
  with True show ?thesis
    by (cases r) (simp_all add: redownloadVideo_def Let_def processQueue_keeps rmFolder_def)
qed

lemma recheck_invariant:
  assumes del: "\<And>i m. I m \<Longrightarrow> I (snd (deleteVideo env i m))"
  shows "I (dbm s) \<Longrightarrow> I (dbm (recheck env config vs s))"
proof (induction vs arbitrary: s)
  case Nil
  then show ?case by simp
next
  case (Cons video vs)
  let ?s1 = "s\<lparr>probed := probed s @ [v_id video]\<rparr>"
  have a: "I (dbm ?s1)" using Cons.prems by simp
  have b: "I (dbm (snd (redownloadVideo env config video ?s1)))"
    by (rule redownloadVideo_invariant [of I env, OF del]) (assumption, rule a)
  show ?case
  proof (cases "checkSponsorBlockData
                  (sponsorBlock env (length (probed s)) (v_id video))")
    case True
    have "I (dbm (recheck env config vs (snd (redownloadVideo env config video ?s1))))"
      by (rule Cons.IH) (rule b)
    with True show ?thesis by (simp add: Let_def)
  next
    case False
    have "I (dbm (recheck env config vs ?s1))"
      by (rule Cons.IH) (rule a)
    with False show ?thesis by (simp add: Let_def)
  qed
qed

lemma recheck_probed: "probed (recheck env config vs s) = probed s @ map v_id vs"
proof (induction vs arbitrary: s)
  case Nil
  then show ?case by simp
next
  case (Cons video vs)
  show ?case
    by (simp add: Let_def Cons.IH redownloadVideo_probed)
qed

lemma sweep_invariant:
  assumes del: "\<And>i m. I m \<Longrightarrow> I (snd (deleteVideo env i m))"
    and I: "I (dbm s)"
  shows "I (dbm (snd (checkAndUpdateSponsorBlockVideos env config s)))"
proof (cases "getVideos None (dbm s)")
  case (Inl e)
  with I show ?thesis by (simp add: checkAndUpdateSponsorBlockVideos_def)
next
  case (Inr allVideos)
  have "I (dbm (recheck env config (videosWithoutSponsorBlock allVideos) s))"
    by (rule recheck_invariant [of I env, OF del]) (assumption, rule I)
  with Inr I show ?thesis by (simp add: checkAndUpdateSponsorBlockVideos_def)
qed

subsection \<open>The manager after the handlers of a download\<close>

lemma dbm_downloadVideo_resume: "dbm (downloadVideo_resume env config k ok s) = dbm s"
  by (simp add: downloadVideo_resume_def Let_def)

lemma dbm_downloadVideo_close:
  "dbm (downloadVideo_close env config now k code out s) =
     (if k < length (running s) \<and> code \<noteq> Some 0
      then snd (addVideo env now (failedRecord (running s ! k) (exitMessage code)) (dbm s))
      else dbm s)"
  by (simp add: downloadVideo_close_def Let_def)

lemma dbm_downloadVideo_finish:
  "dbm (downloadVideo_finish env config now j s) =
     (if j < length (finishing s)
      then snd (addVideo env now
                  (completedRecord env config (fst (finishing s ! j)) (snd (finishing s ! j))
                     (checkSponsorBlockData
                        (sponsorBlock env (length (probed s)) (q_id (fst (finishing s ! j))))))
                  (dbm s))
      else dbm s)"
  by (simp add: downloadVideo_finish_def Let_def)

lemma dbm_downloadVideo_error:
  "dbm (downloadVideo_error env now k message s) =
     (if k < length (running s)
      then snd (addVideo env now (failedRecord (running s ! k) message) (dbm s))
      else dbm s)"
  by (simp add: downloadVideo_error_def Let_def)

text \<open>Every turn keeps an invariant of the manager that its five operations keep.\<close>

lemma step_invariant:
  assumes del: "\<And>i m. I m \<Longrightarrow> I (snd (deleteVideo env i m))"
    and upd: "\<And>i u m. I m \<Longrightarrow> I (snd (updatePlaylist env i u m))"
    and addp: "\<And>i p m. I m \<Longrightarrow> I (snd (addPlaylist env i p m))"
    and rem: "\<And>i m. I m \<Longrightarrow> I (snd (removePlaylist env i m))"
    and addv: "\<And>now v m. I m \<Longrightarrow> I (snd (addVideo env now v m))"
    and I: "I (dbm s)"
  shows "I (dbm (step env config ev s))"
proof (cases ev)
  case (SyncPlaylist now listing playlist)
  then show ?thesis
    using syncPlaylist_invariant [of I env s config now listing playlist, OF del upd I] by simp
next
  case TimerFired
  with I show ?thesis by (simp add: timerFired_keeps)
next
  case (MkdirDone k ok)
  with I show ?thesis by (simp add: dbm_downloadVideo_resume)
next
  case (ProcessClosed now k code out)
  with I addv show ?thesis by (simp add: dbm_downloadVideo_close)
next
  case (ProcessError now k message)
  with I addv show ?thesis by (simp add: dbm_downloadVideo_error)
next
  case (DownloadFinished now j)
  with I addv show ?thesis by (simp add: dbm_downloadVideo_finish)
next
  case SponsorBlockSweep
  then show ?thesis
    using sweep_invariant [of I env s config, OF del I] by simp
next
  case (AddPlaylist newId playlist)
  with I addp show ?thesis by simp
next
  case (RemovePlaylist i)
  with I rem show ?thesis by simp
next
  case (UpdatePlaylist i u)
  with I upd show ?thesis by simp
qed

subsection \<open>The completed records have a path\<close>

lemma subseq_subset: "subseq xs ys \<Longrightarrow> set xs \<subseteq> set ys"
  by (auto elim: list_emb_set)

lemma completedHavePath_subseq:
  "subseq xs ys \<Longrightarrow> completedHavePath ys \<Longrightarrow> completedHavePath xs"
  using subseq_subset [of xs ys] by (auto simp: completedHavePath_def list_all_iff)

lemma completedHavePath_append:
  "completedHavePath (vs @ [v]) \<longleftrightarrow>
     completedHavePath vs \<and> (status v = Completed \<longrightarrow> filepath v \<noteq> [])"
  by (simp add: completedHavePath_def)

lemma completedRecord_fields:
  "v_id (completedRecord env config video out flag) = q_id video"
  "status (completedRecord env config video out flag) = Completed"
  "hasSponsorBlock (completedRecord env config video out flag) = Some flag"
  by (simp_all add: completedRecord_def Let_def)

lemma completedRecord_filepath:
  "\<forall>a b. path_join env a b \<noteq> []
   \<Longrightarrow> filepath (completedRecord env config video out flag) \<noteq> []"
  by (simp add: completedRecord_def Let_def)

lemma failedRecord_fields:
  "v_id (failedRecord video message) = q_id video"
  "status (failedRecord video message) = Failed"
  by (simp_all add: failedRecord_def)

text \<open>
  Every turn that does not add a record leaves a subsequence of the records: it only
  deletes records.
\<close>

lemma step_store_invariant:
  assumes del: "\<And>i m. I m \<Longrightarrow> I (snd (deleteVideo env i m))"
    and upd: "\<And>i u m. I m \<Longrightarrow> I (snd (updatePlaylist env i u m))"
    and addp: "\<And>i p m. I m \<Longrightarrow> I (snd (addPlaylist env i p m))"
    and rem: "\<And>i m. I m \<Longrightarrow> I (snd (removePlaylist env i m))"
    and I: "I (dbm s)"
    and nc: "\<And>now k code out. ev \<noteq> ProcessClosed now k code out"
    and ne: "\<And>now k message. ev \<noteq> ProcessError now k message"
    and nf: "\<And>now j. ev \<noteq> DownloadFinished now j"
  shows "I (dbm (step env config ev s))"
proof (cases ev)
  case (SyncPlaylist now listing playlist)
  then show ?thesis
    using syncPlaylist_invariant [of I env s config now listing playlist, OF del upd I] by simp
next
  case TimerFired
  with I show ?thesis by (simp add: timerFired_keeps)
next
  case (MkdirDone k ok)
  with I show ?thesis by (simp add: dbm_downloadVideo_resume)
next
  case (ProcessClosed now k code out)
  with nc show ?thesis by blast
next
  case (ProcessError now k message)
  with ne show ?thesis by blast
next
  case (DownloadFinished now j)
  with nf show ?thesis by blast
next
  case SponsorBlockSweep
  then show ?thesis
    using sweep_invariant [of I env s config, OF del I] by simp
next
  case (AddPlaylist newId playlist)
  with I addp show ?thesis by simp
next
  case (RemovePlaylist i)
  with I rem show ?thesis by simp
next
  case (UpdatePlaylist i u)
  with I upd show ?thesis by simp
qed

lemma step_records_subseq:
  assumes nc: "\<And>now k code out. ev \<noteq> ProcessClosed now k code out"
    and ne: "\<And>now k message. ev \<noteq> ProcessError now k message"
    and nf: "\<And>now j. ev \<noteq> DownloadFinished now j"
  shows "subseq (storedVideos (step env config ev s)) (storedVideos s)"
proof -
  define I where "I = (\<lambda>m. subseq (recordsOf m) (storedVideos s))"
  have del: "\<And>i m. I m \<Longrightarrow> I (snd (deleteVideo env i m))"
    unfolding I_def using recordsOf_deleteVideo subseq_order.trans by blast
  have upd: "\<And>i u m. I m \<Longrightarrow> I (snd (updatePlaylist env i u m))"
    unfolding I_def by (simp add: recordsOf_updatePlaylist)
  have addp: "\<And>i p m. I m \<Longrightarrow> I (snd (addPlaylist env i p m))"
    unfolding I_def by (simp add: recordsOf_addPlaylist)
  have rem: "\<And>i m. I m \<Longrightarrow> I (snd (removePlaylist env i m))"
    unfolding I_def using recordsOf_removePlaylist subseq_order.trans by blast
  have "I (dbm s)" by (simp add: I_def storedVideos_def)
  then have "I (dbm (step env config ev s))"
    using nc ne nf by (intro step_store_invariant [of I env, OF del upd addp rem]) auto
  then show ?thesis by (simp add: I_def storedVideos_def)
qed

lemma recordsOf_addVideo_path:
  assumes c: "completedHavePath (recordsOf m)"
    and v: "status v = Completed \<longrightarrow> filepath v \<noteq> []"
  shows "completedHavePath (recordsOf (snd (addVideo env now v m)))"
proof (cases "db m")
  case None
  then show ?thesis by (simp add: recordsOf_addVideo completedHavePath_def)
next
  case (Some d)
  with c v show ?thesis by (simp add: recordsOf_addVideo completedHavePath_append)
qed

lemma step_completedHavePath:
  assumes pj: "\<forall>a b. path_join env a b \<noteq> []" and c: "completedHavePath (storedVideos s)"
  shows "completedHavePath (storedVideos (step env config ev s))"
proof (cases "(\<exists>now k code out. ev = ProcessClosed now k code out)
              \<or> (\<exists>now k message. ev = ProcessError now k message)
              \<or> (\<exists>now j. ev = DownloadFinished now j)")
  case False
  then have "subseq (storedVideos (step env config ev s)) (storedVideos s)"
    by (intro step_records_subseq) auto
  then show ?thesis using c by (rule completedHavePath_subseq)
next
  case True
  from c have cm: "completedHavePath (recordsOf (dbm s))" by (simp add: storedVideos_def)
  from True consider (ProcessClosed) now k code out where "ev = ProcessClosed now k code out"
    | (ProcessError) now k message where "ev = ProcessError now k message"
    | (DownloadFinished) now j where "ev = DownloadFinished now j"
    by blast
  then show ?thesis
  proof cases
    case (ProcessClosed now k code out)
    have "completedHavePath
            (recordsOf (snd (addVideo env now (failedRecord (running s ! k) (exitMessage code))
                                (dbm s))))"
      using cm by (rule recordsOf_addVideo_path) (simp add: failedRecord_fields)
    with cm ProcessClosed show ?thesis
      by (simp add: storedVideos_def dbm_downloadVideo_close)
  next
    case (ProcessError now k message)
    have "completedHavePath
            (recordsOf (snd (addVideo env now (failedRecord (running s ! k) message) (dbm s))))"
      using cm by (rule recordsOf_addVideo_path) (simp add: failedRecord_fields)
    with cm ProcessError show ?thesis
      by (simp add: storedVideos_def dbm_downloadVideo_error)
  next
    case (DownloadFinished now j)
    let ?v = "completedRecord env config (fst (finishing s ! j)) (snd (finishing s ! j))
                (checkSponsorBlockData
                   (sponsorBlock env (length (probed s)) (q_id (fst (finishing s ! j)))))"
    have "completedHavePath (recordsOf (snd (addVideo env now ?v (dbm s))))"
      using cm by (rule recordsOf_addVideo_path) (simp add: completedRecord_filepath [OF pj])
    with cm DownloadFinished show ?thesis
      by (simp add: storedVideos_def dbm_downloadVideo_finish)
  qed
qed

lemma run_completedHavePath:
  "\<forall>a b. path_join env a b \<noteq> [] \<Longrightarrow> completedHavePath (storedVideos s)
   \<Longrightarrow> completedHavePath (storedVideos (run env config evs s))"
proof (induction evs arbitrary: s)
  case Nil
  then show ?case by simp
next
  case (Cons ev evs)
  from Cons.prems have "completedHavePath (storedVideos (step env config ev s))"
    by (intro step_completedHavePath) simp_all
  with Cons show ?case by simp
qed

subsection \<open>The database file follows the memory while every write succeeds\<close>

lemma filter_all_kept: "\<not> length (filter P xs) < length xs \<Longrightarrow> filter P xs = xs"
proof -
  assume "\<not> length (filter P xs) < length xs"
  moreover have "length (filter P xs) \<le> length xs" by (rule length_filter_le)
  ultimately have "length (filter P xs) = length xs" by linarith
  then show ?thesis by (metis filter_True length_filter_less not_less_iff_gr_or_eq)
qed

lemma save_succeeds:
  "\<forall>n. save_ok env n \<Longrightarrow> db m = Some d
   \<Longrightarrow> save env m = (Inr (), m\<lparr>dbFile := Some d, writes := Suc (writes m)\<rparr>)"
  by (simp add: save_def)

lemma synced_deleteVideo:
  assumes ok: "\<forall>n. save_ok env n" and s: "dbFile m = db m"
  shows "dbFile (snd (deleteVideo env i m)) = db (snd (deleteVideo env i m))"
proof (cases "db m")
  case None
  with s show ?thesis by (simp add: deleteVideo_def getDatabase_def)
next
  case (Some d)
  show ?thesis
  proof (cases "findIndex (\<lambda>v. v_id v = i) (videos d)")
    case None
    with Some s show ?thesis by (simp add: deleteVideo_def getDatabase_def)
  next
    case (Some k)
    with \<open>db m = Some d\<close> show ?thesis
      by (simp add: deleteVideo_def getDatabase_def Let_def save_succeeds [OF ok])
  qed
qed

lemma synced_updatePlaylist:
  assumes ok: "\<forall>n. save_ok env n" and s: "dbFile m = db m"
  shows "dbFile (snd (updatePlaylist env i u m)) = db (snd (updatePlaylist env i u m))"
proof (cases "db m")
  case None
  with s show ?thesis by (simp add: updatePlaylist_def getDatabase_def)
next
  case (Some d)
  show ?thesis
  proof (cases "findIndex (\<lambda>p. pl_id p = i) (playlists d)")
    case None
    with Some s show ?thesis by (simp add: updatePlaylist_def getDatabase_def)
  next
    case (Some k)
    with \<open>db m = Some d\<close> show ?thesis
      by (simp add: updatePlaylist_def getDatabase_def Let_def save_succeeds [OF ok])
  qed
qed

lemma synced_addPlaylist:
  assumes ok: "\<forall>n. save_ok env n" and s: "dbFile m = db m"
  shows "dbFile (snd (addPlaylist env i p m)) = db (snd (addPlaylist env i p m))"
proof (cases "db m")
  case None
  with s show ?thesis by (simp add: addPlaylist_def getDatabase_def)
next
  case (Some d)
  then show ?thesis
    by (simp add: addPlaylist_def getDatabase_def Let_def save_succeeds [OF ok])
qed

lemma synced_addVideo:
  assumes ok: "\<forall>n. save_ok env n" and s: "dbFile m = db m"
  shows "dbFile (snd (addVideo env now v m)) = db (snd (addVideo env now v m))"
proof (cases "db m")
  case None
  with s show ?thesis by (simp add: addVideo_def getDatabase_def)
next
  case (Some d)
  then show ?thesis
    by (simp add: addVideo_def getDatabase_def Let_def save_succeeds [OF ok])
qed

lemma synced_removePlaylist:
  assumes ok: "\<forall>n. save_ok env n" and s: "dbFile m = db m"
  shows "dbFile (snd (removePlaylist env i m)) = db (snd (removePlaylist env i m))"
proof (cases "db m")
  case None
  with s show ?thesis by (simp add: removePlaylist_def getDatabase_def)
next
  case (Some d)
  show ?thesis
  proof (cases "length (filter (\<lambda>p. pl_id p \<noteq> i) (playlists d)) < length (playlists d)")
    case True
    with Some show ?thesis
      by (simp add: removePlaylist_def getDatabase_def Let_def save_succeeds [OF ok])
  next
    case False
    then have "filter (\<lambda>p. pl_id p \<noteq> i) (playlists d) = playlists d"
      by (rule filter_all_kept)
    with Some s show ?thesis
      by (simp add: removePlaylist_def getDatabase_def Let_def)
  qed
qed

lemma run_synced:
  assumes ok: "\<forall>n. save_ok env n"
  shows "dbFile (dbm s) = db (dbm s)
         \<Longrightarrow> dbFile (dbm (run env config evs s)) = db (dbm (run env config evs s))"
proof (induction evs arbitrary: s)
  case Nil
  then show ?case by simp
next
  case (Cons ev evs)
  define I where "I = (\<lambda>m::DatabaseManager. dbFile m = db m)"
  have "I (dbm (step env config ev s))"
  proof (rule step_invariant [of I env])
    show "\<And>i m. I m \<Longrightarrow> I (snd (deleteVideo env i m))"
      unfolding I_def using ok by (rule synced_deleteVideo)
    show "\<And>i u m. I m \<Longrightarrow> I (snd (updatePlaylist env i u m))"
      unfolding I_def using ok by (rule synced_updatePlaylist)
    show "\<And>i p m. I m \<Longrightarrow> I (snd (addPlaylist env i p m))"
      unfolding I_def using ok by (rule synced_addPlaylist)
    show "\<And>i m. I m \<Longrightarrow> I (snd (removePlaylist env i m))"
      unfolding I_def using ok by (rule synced_removePlaylist)
    show "\<And>now v m. I m \<Longrightarrow> I (snd (addVideo env now v m))"
      unfolding I_def using ok by (rule synced_addVideo)
    show "I (dbm s)" using Cons.prems by (simp add: I_def)
  qed
  then have "dbFile (dbm (step env config ev s)) = db (dbm (step env config ev s))"
    by (simp add: I_def)
  then show ?case using Cons.IH by simp
qed

lemma isVideoDownloaded_record:
  assumes "isVideoDownloaded videoId (dbm s) = Inr True"
  shows "\<exists>v\<in>set (storedVideos s). v_id v = videoId \<and> status v = Completed"
  using assms
  by (auto simp: isVideoDownloaded_def getDatabase_def storedVideos_def recordsOf_def
      list_ex_iff split: option.splits)

text \<open>
  Claim C8, amended. Starting from a store whose completed records have a path, after
  any sequence of turns isVideoDownloaded returns true for an id only when the in-memory
  store holds a record of that id with status completed and a non-empty artifact path;
  that record is in the database file too when every write has succeeded.
\<close>

theorem isVideoDownloaded_sound:
  assumes pj: "\<forall>a b. path_join env a b \<noteq> []"
    and c: "completedHavePath (storedVideos s)"
    and d: "isVideoDownloaded videoId (dbm (run env config evs s)) = Inr True"
  shows "\<exists>v\<in>set (storedVideos (run env config evs s)).
           v_id v = videoId \<and> status v = Completed \<and> filepath v \<noteq> []
           \<and> ((\<forall>n. save_ok env n) \<and> dbFile (dbm s) = db (dbm s)
                \<longrightarrow> v \<in> set (persistedVideos (run env config evs s)))"
proof -
  let ?s = "run env config evs s"
  from d obtain v where v: "v \<in> set (storedVideos ?s)" "v_id v = videoId"
    "status v = Completed"
    using isVideoDownloaded_record by blast
  have "completedHavePath (storedVideos ?s)"
    using pj c by (rule run_completedHavePath)
  with v have p: "filepath v \<noteq> []"
    by (auto simp: completedHavePath_def list_all_iff)
  have "v \<in> set (persistedVideos ?s)"
    if "(\<forall>n. save_ok env n) \<and> dbFile (dbm s) = db (dbm s)"
  proof -
    from that have "dbFile (dbm ?s) = db (dbm ?s)" by (intro run_synced) auto
    then have "persistedVideos ?s = storedVideos ?s"
      by (simp add: persistedVideos_def storedVideos_def recordsOf_def)
    with v show ?thesis by simp
  qed
  with v p show ?thesis by blast
qed

subsection \<open>The operations of the manager while every write succeeds\<close>

lemma fst_updatePlaylist_ok:
  assumes ok: "\<forall>n. save_ok env n" and l: "db m \<noteq> None"
  shows "\<exists>r. fst (updatePlaylist env i u m) = Inr r"
proof -
  from l obtain d where d: "db m = Some d" by auto
  show ?thesis
  proof (cases "findIndex (\<lambda>p. pl_id p = i) (playlists d)")
    case None
    with d show ?thesis by (simp add: updatePlaylist_def getDatabase_def)
  next
    case (Some k)
    with d show ?thesis
      by (simp add: updatePlaylist_def getDatabase_def Let_def save_succeeds [OF ok])
  qed
qed

lemma fst_deleteVideo_ok:
  assumes ok: "\<forall>n. save_ok env n" and l: "db m \<noteq> None"
  shows "\<exists>r. fst (deleteVideo env i m) = Inr r"
proof -
  from l obtain d where d: "db m = Some d" by auto
  show ?thesis
  proof (cases "findIndex (\<lambda>v. v_id v = i) (videos d)")
    case None
    with d show ?thesis by (simp add: deleteVideo_def getDatabase_def)
  next
    case (Some k)
    with d show ?thesis
      by (simp add: deleteVideo_def getDatabase_def Let_def save_succeeds [OF ok])
  qed
qed

lemma loaded_deleteVideo: "db m \<noteq> None \<Longrightarrow> db (snd (deleteVideo env i m)) \<noteq> None"
  by (simp add: db_deleteVideo)

lemma loaded_updatePlaylist: "db m \<noteq> None \<Longrightarrow> db (snd (updatePlaylist env i u m)) \<noteq> None"
  by (simp add: db_updatePlaylist)

lemma fst_deleteRemoved_ok:
  assumes ok: "\<forall>n. save_ok env n"
  shows "db (dbm s) \<noteq> None \<Longrightarrow> fst (deleteRemoved env config vs s) = Inr ()"
proof (induction vs arbitrary: s)
  case Nil
  then show ?case by simp
next
  case (Cons video vs)
  let ?s1 = "rmFolder env (path_join env (downloadPath config) (v_id video)) s"
  have l: "db (dbm ?s1) \<noteq> None" using Cons.prems by simp
  obtain r m where dv: "deleteVideo env (v_id video) (dbm ?s1) = (r, m)"
    by (cases "deleteVideo env (v_id video) (dbm ?s1)")
  from fst_deleteVideo_ok [OF ok l, of "v_id video"] dv obtain x where r: "r = Inr x"
    by auto
  from loaded_deleteVideo [OF l, of env "v_id video"] dv have "db m \<noteq> None" by simp
  then have "fst (deleteRemoved env config vs (?s1\<lparr>dbm := m\<rparr>)) = Inr ()"
    by (intro Cons.IH) simp
  with dv r show ?case by (simp add: Let_def)
qed

lemma filterNew_loaded:
  "db m = Some d \<Longrightarrow>
   filterNew m es =
     Inr (filter (\<lambda>e. \<not> list_ex (\<lambda>v. v_id v = vi_id e \<and> status v = Completed) (videos d)) es)"
  by (induction es) (simp_all add: isVideoDownloaded_def getDatabase_def)

subsection \<open>The stored playlist through a reconciliation\<close>

lemma findIndex_update_same:
  "j < length xs \<Longrightarrow> P y = P (xs ! j) \<Longrightarrow> findIndex P (xs[j := y]) = findIndex P xs"
proof (induction xs arbitrary: j)
  case Nil
  then show ?case by simp
next
  case (Cons x xs)
  then show ?case by (cases j) auto
qed

lemma pl_id_assign: "u_id u = None \<Longrightarrow> pl_id (assign p u) = pl_id p"
  by (simp add: assign_def)

lemma storedPlaylist_updatePlaylist:
  assumes u: "u_id u = None" and h: "storedPlaylist pid m \<noteq> None"
  shows "storedPlaylist pid (snd (updatePlaylist env i u m)) \<noteq> None"
proof -
  from h obtain d where d: "db m = Some d" by (auto simp: storedPlaylist_def split: option.splits)
  with h obtain k where k: "findIndex (\<lambda>p. pl_id p = pid) (playlists d) = Some k"
    by (auto simp: storedPlaylist_def split: option.splits)
  show ?thesis
  proof (cases "findIndex (\<lambda>p. pl_id p = i) (playlists d)")
    case None
    with d k show ?thesis by (simp add: storedPlaylist_def db_updatePlaylist)
  next
    case (Some j)
    then have j: "j < length (playlists d)" by (simp add: findIndex_Some_lt)
    have "findIndex (\<lambda>p. pl_id p = pid) ((playlists d)[j := assign (playlists d ! j) u])
            = findIndex (\<lambda>p. pl_id p = pid) (playlists d)"
      using j by (intro findIndex_update_same) (simp_all add: pl_id_assign [OF u])
    with d k Some show ?thesis by (simp add: storedPlaylist_def db_updatePlaylist)
  qed
qed

lemma storedPlaylist_lastChecked:
  assumes h: "storedPlaylist pid m \<noteq> None"
  shows "map_option lastChecked
           (storedPlaylist pid
              (snd (updatePlaylist env pid (noUpdates\<lparr>u_lastChecked := Some (Some now)\<rparr>) m)))
         = Some (Some now)"
proof -
  let ?u = "noUpdates\<lparr>u_lastChecked := Some (Some now)\<rparr>"
  from h obtain d where d: "db m = Some d" by (auto simp: storedPlaylist_def split: option.splits)
  with h obtain k where k: "findIndex (\<lambda>p. pl_id p = pid) (playlists d) = Some k"
    by (auto simp: storedPlaylist_def split: option.splits)
  then have lt: "k < length (playlists d)" and pk: "pl_id (playlists d ! k) = pid"
    using findIndex_Some_lt [of "\<lambda>p. pl_id p = pid" "playlists d" k] by auto
  have "findIndex (\<lambda>p. pl_id p = pid) ((playlists d)[k := assign (playlists d ! k) ?u])
          = Some k"
    using k by (intro findIndex_update) (simp_all add: assign_def noUpdates_def pk)
  moreover have "lastChecked (assign (playlists d ! k) ?u) = Some now"
    by (simp add: assign_def noUpdates_def)
  ultimately show ?thesis using d k lt by (simp add: storedPlaylist_def db_updatePlaylist)
qed

lemma storedPlaylist_deleteVideo:
  "storedPlaylist pid (snd (deleteVideo env i m)) = storedPlaylist pid m"
  by (cases "db m") (auto simp: storedPlaylist_def db_deleteVideo split: option.splits)

lemma storedPlaylist_loaded: "storedPlaylist pid m \<noteq> None \<Longrightarrow> db m \<noteq> None"
  by (auto simp: storedPlaylist_def split: option.splits)

lemma syncPlaylist_unfold:
  "syncPlaylist env config now (Inr info) playlist s =
     (case fst (updateTitle env info playlist (dbm s)) of
        Inl e \<Rightarrow> (Inl e, s\<lparr>dbm := snd (updateTitle env info playlist (dbm s))\<rparr>)
      | Inr x \<Rightarrow>
          (case fst (deleteRemovedVideos env config info playlist
                       (s\<lparr>dbm := snd (updateTitle env info playlist (dbm s))\<rparr>)) of
             Inl e \<Rightarrow> (Inl e, snd (deleteRemovedVideos env config info playlist
                                     (s\<lparr>dbm := snd (updateTitle env info playlist (dbm s))\<rparr>)))
           | Inr y \<Rightarrow>
               enqueueNewVideos env config now info playlist
                 (snd (deleteRemovedVideos env config info playlist
                         (s\<lparr>dbm := snd (updateTitle env info playlist (dbm s))\<rparr>)))))"
proof -
  obtain r1 m1 where t: "updateTitle env info playlist (dbm s) = (r1, m1)"
    by (cases "updateTitle env info playlist (dbm s)")
  obtain r2 s2 where p: "deleteRemovedVideos env config info playlist (s\<lparr>dbm := m1\<rparr>) = (r2, s2)"
    by (cases "deleteRemovedVideos env config info playlist (s\<lparr>dbm := m1\<rparr>)")
  show ?thesis
  proof (cases r1)
    case (Inl e)
    with t show ?thesis by (simp add: syncPlaylist_def)
  next
    case (Inr x)
    with t p show ?thesis by (cases r2) (simp_all add: syncPlaylist_def)
  qed
qed

lemma fst_updateTitle_ok:
  "\<forall>n. save_ok env n \<Longrightarrow> db m \<noteq> None \<Longrightarrow> \<exists>r. fst (updateTitle env info playlist m) = Inr r"
  using fst_updatePlaylist_ok by (simp add: updateTitle_def)

lemma fst_deleteRemovedVideos_ok:
  "\<forall>n. save_ok env n \<Longrightarrow> db (dbm s) \<noteq> None
   \<Longrightarrow> fst (deleteRemovedVideos env config info playlist s) = Inr ()"
  using fst_deleteRemoved_ok
  by (auto simp: deleteRemovedVideos_def getVideos_def getDatabase_def Let_def)

lemma enqueueNewVideos_ok:
  assumes ok: "\<forall>n. save_ok env n" and d: "db (dbm s) = Some d"
  shows "fst (enqueueNewVideos env config now info playlist s) =
           Inr (length (filter (\<lambda>e. \<not> list_ex (\<lambda>v. v_id v = vi_id e \<and> status v = Completed)
                                      (videos d)) (entries info)))"
proof -
  let ?new = "filter (\<lambda>e. \<not> list_ex (\<lambda>v. v_id v = vi_id e \<and> status v = Completed)
                                      (videos d)) (entries info)"
  let ?s3 = "s\<lparr>downloadQueue := downloadQueue s @ map (enqueued (pl_id playlist)) ?new\<rparr>"
  let ?u = "updatePlaylist env (pl_id playlist)
              (noUpdates\<lparr>u_lastChecked := Some (Some now)\<rparr>) (dbm s)"
  from d have "db (dbm s) \<noteq> None" by simp
  from fst_updatePlaylist_ok [OF ok this] obtain r where "fst ?u = Inr r" by blast
  then obtain m4 where "?u = (Inr r, m4)" by (cases ?u) auto
  then show ?thesis
    using filterNew_loaded [OF d, of "entries info"]
    by (simp add: enqueueNewVideos_def Let_def)
qed

lemma dbm_enqueueNewVideos:
  "db (dbm s) \<noteq> None \<Longrightarrow>
   dbm (snd (enqueueNewVideos env config now info playlist s)) =
     snd (updatePlaylist env (pl_id playlist)
            (noUpdates\<lparr>u_lastChecked := Some (Some now)\<rparr>) (dbm s))"
proof -
  assume "db (dbm s) \<noteq> None"
  then obtain d where d: "db (dbm s) = Some d" by auto
  let ?u = "updatePlaylist env (pl_id playlist)
              (noUpdates\<lparr>u_lastChecked := Some (Some now)\<rparr>) (dbm s)"
  obtain r m4 where u: "?u = (r, m4)" by (cases ?u)
  then show ?thesis
    using filterNew_loaded [OF d, of "entries info"]
    by (cases r) (simp_all add: enqueueNewVideos_def Let_def processQueue_keeps)
qed

text \<open>
  Claim C7, amended. When the listing is resolved, the playlist is in the store and every
  write of the database succeeds, syncPlaylist resolves and the timestamp of the playlist
  is the current time, whatever the removals of the stale folders do.
\<close>

theorem syncPlaylist_lastChecked:
  assumes ok: "\<forall>n. save_ok env n"
    and h: "storedPlaylist (pl_id playlist) (dbm s) \<noteq> None"
  shows "(\<exists>n. fst (syncPlaylist env config now (Inr info) playlist s) = Inr n)
         \<and> map_option lastChecked
              (storedPlaylist (pl_id playlist)
                 (dbm (snd (syncPlaylist env config now (Inr info) playlist s))))
            = Some (Some now)"
proof -
  let ?pid = "pl_id playlist"
  let ?t = "updateTitle env info playlist (dbm s)"
  let ?s1 = "s\<lparr>dbm := snd ?t\<rparr>"
  let ?p = "deleteRemovedVideos env config info playlist ?s1"
  let ?I = "\<lambda>m. storedPlaylist ?pid m \<noteq> None"
  have upd: "\<And>i u m. ?I m \<Longrightarrow> ?I (snd (updatePlaylist env i (noUpdates\<lparr>u_title := u\<rparr>) m))"
    by (rule storedPlaylist_updatePlaylist) (simp add: noUpdates_def)
  have h1: "?I (snd ?t)" using h upd by (simp add: updateTitle_def)
  have del: "\<And>i m. ?I m \<Longrightarrow> ?I (snd (deleteVideo env i m))"
    by (simp add: storedPlaylist_deleteVideo)
  have h2: "?I (dbm (snd ?p))"
    by (rule deleteRemovedVideos_invariant [of ?I env, OF del]) (simp_all add: h1)
  have l0: "db (dbm s) \<noteq> None" using h by (rule storedPlaylist_loaded)
  have l1: "db (dbm ?s1) \<noteq> None" using h1 storedPlaylist_loaded by simp
  have l2: "db (dbm (snd ?p)) \<noteq> None" using h2 by (rule storedPlaylist_loaded)
  from fst_updateTitle_ok [OF ok l0] obtain x where t: "fst ?t = Inr x" by blast
  have p: "fst ?p = Inr ()" using ok l1 by (rule fst_deleteRemovedVideos_ok)
  have eq: "syncPlaylist env config now (Inr info) playlist s
              = enqueueNewVideos env config now info playlist (snd ?p)"
    by (simp add: syncPlaylist_unfold t p)
  from l2 obtain d2 where "db (dbm (snd ?p)) = Some d2" by auto
  from enqueueNewVideos_ok [OF ok this]
  have "\<exists>n. fst (enqueueNewVideos env config now info playlist (snd ?p)) = Inr n" by blast
  moreover have "map_option lastChecked
      (storedPlaylist ?pid (dbm (snd (enqueueNewVideos env config now info playlist (snd ?p)))))
      = Some (Some now)"
    using h2 by (simp add: dbm_enqueueNewVideos [OF l2] storedPlaylist_lastChecked)
  ultimately show ?thesis by (simp add: eq)
qed

subsection \<open>Reconciliation when every listed item is completed\<close>

lemma deleteRemoved_invariant_on:
  assumes del: "\<And>i m. i \<in> A \<Longrightarrow> I m \<Longrightarrow> I (snd (deleteVideo env i m))"
  shows "v_id ` set vs \<subseteq> A \<Longrightarrow> I (dbm s)
         \<Longrightarrow> I (dbm (snd (deleteRemoved env config vs s)))"
proof (induction vs arbitrary: s)
  case Nil
  then show ?case by simp
next
  case (Cons video vs)
  let ?s1 = "rmFolder env (path_join env (downloadPath config) (v_id video)) s"
  obtain r m where dv: "deleteVideo env (v_id video) (dbm ?s1) = (r, m)"
    by (cases "deleteVideo env (v_id video) (dbm ?s1)")
  have "v_id video \<in> A" using Cons.prems(1) by simp
  then have "I (snd (deleteVideo env (v_id video) (dbm ?s1)))"
    using Cons.prems(2) by (intro del) simp_all
  with dv have Im: "I m" by simp
  show ?case
  proof (cases r)
    case (Inl e)
    with dv Im show ?thesis by (simp add: Let_def)
  next
    case (Inr x)
    have "I (dbm (snd (deleteRemoved env config vs (?s1\<lparr>dbm := m\<rparr>))))"
      using Cons.prems(1) by (intro Cons.IH) (simp_all add: Im)
    with dv Inr show ?thesis by (simp add: Let_def)
  qed
qed

lemma splice1_keeps:
  assumes "x \<in> set xs" and "k < length xs" and "x \<noteq> xs ! k"
  shows "x \<in> set (splice1 k xs)"
proof -
  have "xs = take k xs @ xs ! k # drop (Suc k) xs"
    using assms(2) by (rule id_take_nth_drop)
  then have "set xs = set (take k xs @ xs ! k # drop (Suc k) xs)" by simp
  also have "\<dots> = insert (xs ! k) (set (take k xs) \<union> set (drop (Suc k) xs))" by simp
  finally have "x \<in> insert (xs ! k) (set (take k xs) \<union> set (drop (Suc k) xs))"
    using assms(1) by simp
  with assms(3) show ?thesis by (simp add: splice1_def)
qed

lemma deleteVideo_keeps_other:
  assumes ne: "j \<noteq> i"
    and ex: "list_ex (\<lambda>v. v_id v = j \<and> status v = Completed) (recordsOf m)"
  shows "list_ex (\<lambda>v. v_id v = j \<and> status v = Completed) (recordsOf (snd (deleteVideo env i m)))"
proof (cases "db m")
  case None
  with ex show ?thesis by (simp add: recordsOf_def)
next
  case (Some d)
  from ex Some obtain w where w: "w \<in> set (videos d)" "v_id w = j" "status w = Completed"
    by (auto simp: recordsOf_def list_ex_iff)
  show ?thesis
  proof (cases "findIndex (\<lambda>v. v_id v = i) (videos d)")
    case None
    with Some ex show ?thesis by (simp add: recordsOf_def db_deleteVideo)
  next
    case k: (Some k)
    then have lt: "k < length (videos d)" and ik: "v_id (videos d ! k) = i"
      using findIndex_Some_lt [of "\<lambda>v. v_id v = i" "videos d" k] by auto
    with w ne have "w \<noteq> videos d ! k" by auto
    with w(1) lt have "w \<in> set (splice1 k (videos d))" by (intro splice1_keeps)
    with w Some k show ?thesis by (auto simp: recordsOf_def db_deleteVideo list_ex_iff)
  qed
qed

lemma enqueueNewVideos_none_new:
  assumes d: "db (dbm s) = Some d"
    and all: "\<forall>e\<in>set (entries info).
                list_ex (\<lambda>v. v_id v = vi_id e \<and> status v = Completed) (videos d)"
  shows "(\<exists>e. fst (enqueueNewVideos env config now info playlist s) = Inl e)
         \<or> fst (enqueueNewVideos env config now info playlist s) = Inr 0"
proof -
  have f: "filterNew (dbm s) (entries info) = Inr []"
    using all by (simp add: filterNew_loaded [OF d])
  let ?u = "updatePlaylist env (pl_id playlist)
              (noUpdates\<lparr>u_lastChecked := Some (Some now)\<rparr>) (dbm s)"
  obtain r m4 where "?u = (r, m4)" by (cases ?u)
  with f show ?thesis by (cases r) (simp_all add: enqueueNewVideos_def Let_def)
qed

lemma deleteRemoved_waiting:
  "starting (snd (deleteRemoved env config vs s)) = starting s
   \<and> downloadQueue (snd (deleteRemoved env config vs s)) = downloadQueue s"
proof (induction vs arbitrary: s)
  case Nil
  then show ?case by simp
next
  case (Cons video vs)
  let ?s1 = "rmFolder env (path_join env (downloadPath config) (v_id video)) s"
  obtain r m where dv: "deleteVideo env (v_id video) (dbm ?s1) = (r, m)"
    by (cases "deleteVideo env (v_id video) (dbm ?s1)")
  show ?case
  proof (cases r)
    case (Inl e)
    with dv show ?thesis by (simp add: Let_def)
  next
    case (Inr x)
    with dv Cons.IH [of "?s1\<lparr>dbm := m\<rparr>"] show ?thesis by (simp add: Let_def)
  qed
qed

lemma deleteRemovedVideos_waiting:
  "starting (snd (deleteRemovedVideos env config info playlist s)) = starting s
   \<and> downloadQueue (snd (deleteRemovedVideos env config info playlist s)) = downloadQueue s"
  using deleteRemoved_waiting
  by (simp add: deleteRemovedVideos_def Let_def split: sum.splits)

lemma enqueueNewVideos_waiting:
  assumes f: "filterNew (dbm s) (entries info) = Inr newVideos"
  shows "starting (snd (enqueueNewVideos env config now info playlist s))
           @ downloadQueue (snd (enqueueNewVideos env config now info playlist s))
         = starting s @ downloadQueue s @ map (enqueued (pl_id playlist)) newVideos"
proof -
  let ?u = "updatePlaylist env (pl_id playlist)
              (noUpdates\<lparr>u_lastChecked := Some (Some now)\<rparr>) (dbm s)"
  obtain r m4 where u: "?u = (r, m4)" by (cases ?u)
  show ?thesis
  proof (cases r)
    case (Inl e)
    with f u show ?thesis by (simp add: enqueueNewVideos_def Let_def)
  next
    case (Inr x)
    with f u show ?thesis
      by (simp add: enqueueNewVideos_def Let_def processQueue_keeps)
  qed
qed

text \<open>
  Claim C3, amended. A reconciliation in which every listed item already has a completed
  record (as a second run has once the downloads of the first have all succeeded) never
  returns a positive count, returns 0 when every write succeeds, and enqueues nothing:
  the jobs waiting to start, those already handed to downloadVideo followed by those
  still in the queue, are the same sequence after the call as before it.
\<close>

theorem syncPlaylist_nothing_new:
  assumes l: "db (dbm s) \<noteq> None"
    and all: "\<forall>e\<in>set (entries info). isVideoDownloaded (vi_id e) (dbm s) = Inr True"
  shows "(\<forall>n. fst (syncPlaylist env config now (Inr info) playlist s) = Inr n \<longrightarrow> n = 0)
         \<and> ((\<forall>n. save_ok env n)
              \<longrightarrow> fst (syncPlaylist env config now (Inr info) playlist s) = Inr 0)
         \<and> starting (snd (syncPlaylist env config now (Inr info) playlist s))
             @ downloadQueue (snd (syncPlaylist env config now (Inr info) playlist s))
           = starting s @ downloadQueue s"
proof -
  let ?ids = "set (map vi_id (entries info))"
  let ?t = "updateTitle env info playlist (dbm s)"
  let ?s1 = "s\<lparr>dbm := snd ?t\<rparr>"
  let ?p = "deleteRemovedVideos env config info playlist ?s1"
  define I where "I = (\<lambda>m::DatabaseManager. db m \<noteq> None \<and> (\<forall>e\<in>set (entries info).
     list_ex (\<lambda>v. v_id v = vi_id e \<and> status v = Completed) (recordsOf m)))"
  have I0: "I (dbm s)"
    using l all
    by (auto simp: I_def isVideoDownloaded_def getDatabase_def recordsOf_def
        split: option.splits)
  have upd: "I (snd (updatePlaylist env i u m))" if "I m" for i u m
  proof -
    from that have "db m \<noteq> None" by (simp add: I_def)
    then have "db (snd (updatePlaylist env i u m)) \<noteq> None" by (rule loaded_updatePlaylist)
    with that show ?thesis by (simp add: I_def recordsOf_updatePlaylist)
  qed
  have I1: "I (snd ?t)"
  proof (cases "pi_title info \<noteq> pl_title playlist")
    case True
    then show ?thesis using upd [OF I0] by (simp add: updateTitle_def)
  next
    case False
    then show ?thesis using I0 by (simp add: updateTitle_def)
  qed
  have del: "I (snd (deleteVideo env i m))" if i: "i \<in> - ?ids" and m: "I m" for i m
  proof -
    from m have "db m \<noteq> None" by (simp add: I_def)
    then have a: "db (snd (deleteVideo env i m)) \<noteq> None" by (rule loaded_deleteVideo)
    have "list_ex (\<lambda>v. v_id v = vi_id e \<and> status v = Completed)
            (recordsOf (snd (deleteVideo env i m)))" if e: "e \<in> set (entries info)" for e
    proof (rule deleteVideo_keeps_other)
      show "vi_id e \<noteq> i" using i e by auto
      show "list_ex (\<lambda>v. v_id v = vi_id e \<and> status v = Completed) (recordsOf m)"
        using m e by (simp add: I_def)
    qed
    with a show ?thesis by (simp add: I_def)
  qed
  have I2: "I (dbm (snd ?p))"
  proof (cases "getVideos (Some (pl_id playlist)) (dbm ?s1)")
    case (Inl e)
    with I1 show ?thesis by (simp add: deleteRemovedVideos_def)
  next
    case (Inr dbVideos)
    let ?vd = "filter (\<lambda>v. v_id v \<notin> ?ids) dbVideos"
    have "I (dbm (snd (deleteRemoved env config ?vd ?s1)))"
      by (rule deleteRemoved_invariant_on [of "- ?ids" I env, OF del]) (auto simp: I1)
    with Inr show ?thesis by (simp add: deleteRemovedVideos_def Let_def)
  qed
  then obtain d2 where d2: "db (dbm (snd ?p)) = Some d2"
    and all2: "\<forall>e\<in>set (entries info).
                 list_ex (\<lambda>v. v_id v = vi_id e \<and> status v = Completed) (videos d2)"
    by (auto simp: I_def recordsOf_def)
  have e: "(\<exists>e. fst (enqueueNewVideos env config now info playlist (snd ?p)) = Inl e)
           \<or> fst (enqueueNewVideos env config now info playlist (snd ?p)) = Inr 0"
    using d2 all2 by (rule enqueueNewVideos_none_new)
  have A: "n = 0" if n: "fst (syncPlaylist env config now (Inr info) playlist s) = Inr n" for n
  proof (cases "fst ?t")
    case (Inl x)
    with n show ?thesis by (simp add: syncPlaylist_unfold)
  next
    case t: (Inr x)
    show ?thesis
    proof (cases "fst ?p")
      case (Inl y)
      with n t show ?thesis by (simp add: syncPlaylist_unfold)
    next
      case (Inr y)
      with n t have "fst (enqueueNewVideos env config now info playlist (snd ?p)) = Inr n"
        by (simp add: syncPlaylist_unfold)
      with e show ?thesis by auto
    qed
  qed
  have B: "fst (syncPlaylist env config now (Inr info) playlist s) = Inr 0"
    if ok: "\<forall>n. save_ok env n"
  proof -
    from fst_updateTitle_ok [OF ok l] obtain x where t: "fst ?t = Inr x" by blast
    have "db (dbm ?s1) \<noteq> None" using I1 by (simp add: I_def)
    with ok have p: "fst ?p = Inr ()" by (rule fst_deleteRemovedVideos_ok)
    have "fst (enqueueNewVideos env config now info playlist (snd ?p)) = Inr 0"
      using all2 by (simp add: enqueueNewVideos_ok [OF ok d2])
    then show ?thesis by (simp add: syncPlaylist_unfold t p)
  qed
  have w: "starting (snd ?p) = starting s \<and> downloadQueue (snd ?p) = downloadQueue s"
    using deleteRemovedVideos_waiting [of env config info playlist ?s1] by simp
  have f: "filterNew (dbm (snd ?p)) (entries info) = Inr []"
    using all2 by (simp add: filterNew_loaded [OF d2])
  have q: "starting (snd (enqueueNewVideos env config now info playlist (snd ?p)))
             @ downloadQueue (snd (enqueueNewVideos env config now info playlist (snd ?p)))
           = starting s @ downloadQueue s"
    using enqueueNewVideos_waiting [OF f, of env config now playlist] w by simp
  have C: "starting (snd (syncPlaylist env config now (Inr info) playlist s))
             @ downloadQueue (snd (syncPlaylist env config now (Inr info) playlist s))
           = starting s @ downloadQueue s"
  proof (cases "fst ?t")
    case (Inl x)
    then show ?thesis by (simp add: syncPlaylist_unfold)
  next
    case t: (Inr x)
    show ?thesis
    proof (cases "fst ?p")
      case (Inl y)
      with t w show ?thesis by (simp add: syncPlaylist_unfold)
    next
      case (Inr y)
      with t q show ?thesis by (simp add: syncPlaylist_unfold)
    qed
  qed
  from A B C show ?thesis by blast
qed

subsection \<open>The SponsorBlock sweep\<close>

text \<open>
  Claim C5, amended. The sweep probes exactly the records with status completed whose
  flag is the boolean false, each once and in the order of the store.
\<close>

theorem sweep_probes:
  assumes "db (dbm s) = Some d"
  shows "probed (snd (checkAndUpdateSponsorBlockVideos env config s)) =
           probed s @ map v_id
             (filter (\<lambda>v. status v = Completed \<and> hasSponsorBlock v = Some False) (videos d))"
proof -
  have g: "getVideos None (dbm s) = Inr (videos d)"
    using assms by (simp add: getVideos_def getDatabase_def)
  show ?thesis
  proof (cases "videosWithoutSponsorBlock (videos d)")
    case Nil
    with g show ?thesis
      by (simp add: checkAndUpdateSponsorBlockVideos_def)
        (simp add: videosWithoutSponsorBlock_def)
  next
    case (Cons v vs)
    with g have "snd (checkAndUpdateSponsorBlockVideos env config s)
                   = recheck env config (videosWithoutSponsorBlock (videos d)) s"
      by (simp add: checkAndUpdateSponsorBlockVideos_def)
    then show ?thesis by (simp add: recheck_probed videosWithoutSponsorBlock_def)
  qed
qed

section \<open>Runs of the example\<close>

lemmas eval_defs = exampleConfig_def examplePlaylist_def exampleListing_def exampleInfo_def exampleEnv_def
  exampleSystem_def exampleVideo_def failingEnv_def diskFullEnv_def
  started_def js_def syncPlaylist_def updateTitle_def deleteRemovedVideos_def
  enqueueNewVideos_def getVideos_def getDatabase_def updatePlaylist_def addPlaylist_def
  deleteVideo_def addVideo_def rmFolder_def
  save_def isVideoDownloaded_def noUpdates_def assign_def enqueued_def processQueue_def
  drain.simps downloadVideo_resume_def downloadVideo_close_def downloadVideo_finish_def
  lateDataEnv_def failedRecord_def redownloadVideo_def nonEmptyArray_def splice1_def Let_def
  DEFAULT_DATABASE_def mapDelete_def storedVideos_def recordsOf_def persistedVideos_def
  completedRecord_fields storedPlaylist_def checkAndUpdateSponsorBlockVideos_def
  videosWithoutSponsorBlock_def checkSponsorBlockData_def

text \<open>
  Claim C1 fails on the code. With the ceiling 2 and three items in the queue,
  processQueue admits all three in one turn, because downloadVideo enters an item into
  \<open>activeDownloads\<close> only after its \<open>await fs.mkdir\<close>; when the three calls resume, the
  running set has three entries.
\<close>

theorem processQueue_exceeds_ceiling:
  "maxConcurrentDownloads exampleConfig = 2
   \<and> length (activeDownloads (run exampleEnv exampleConfig burstRun started)) = 3"
  by (simp add: burstRun_def eval_defs)

text \<open>
  Claim C2 fails on the code. In \<open>sweepRun\<close> nothing overlaps: the first download of the
  item fails and leaves a failed record, the second succeeds and adds a completed record
  behind it. When the sweep re-downloads the item, redownloadVideo calls deleteVideo,
  which removes the first record of that id, the failed one, and the completed record
  stays; the new download adds a second completed record. In \<open>duplicateRun\<close> two
  reconciliations in succession enqueue the same item twice, and both downloads add a
  completed record.
\<close>

theorem duplicate_completed_records:
  "map (\<lambda>v. (v_id v, status v, hasSponsorBlock v))
       (storedVideos (run lateDataEnv exampleConfig sweepRun started))
     = [(js ''a'', Completed, Some False), (js ''a'', Completed, Some True)]
   \<and> \<not> uniqueCompleted (storedVideos (run lateDataEnv exampleConfig sweepRun started))
   \<and> \<not> uniqueCompleted (storedVideos (run exampleEnv exampleConfig duplicateRun started))"
  by (simp add: sweepRun_def duplicateRun_def uniqueCompleted_def eval_defs)

text \<open>
  Claim C3, as stated, fails: a second reconciliation right after the first, with the
  same listing, returns 1 again and enqueues the item a second time, since the item has
  no completed record yet.
\<close>

theorem second_sync_enqueues_again:
  "fst (syncPlaylist exampleEnv exampleConfig (js ''t1'') (exampleListing [js ''a''])
          examplePlaylist (exampleSystem [examplePlaylist] [])) = Inr 1
   \<and> fst (syncPlaylist exampleEnv exampleConfig (js ''t2'') (exampleListing [js ''a''])
            examplePlaylist
            (snd (syncPlaylist exampleEnv exampleConfig (js ''t1'') (exampleListing [js ''a''])
                    examplePlaylist (exampleSystem [examplePlaylist] [])))) = Inr 1
   \<and> map q_id
        (starting
           (snd (syncPlaylist exampleEnv exampleConfig (js ''t2'') (exampleListing [js ''a''])
                   examplePlaylist
                   (snd (syncPlaylist exampleEnv exampleConfig (js ''t1'')
                           (exampleListing [js ''a'']) examplePlaylist
                           (exampleSystem [examplePlaylist] [])))))
         @ downloadQueue
           (snd (syncPlaylist exampleEnv exampleConfig (js ''t2'') (exampleListing [js ''a''])
                   examplePlaylist
                   (snd (syncPlaylist exampleEnv exampleConfig (js ''t1'')
                           (exampleListing [js ''a'']) examplePlaylist
                           (exampleSystem [examplePlaylist] []))))))
      = [js ''a'', js ''a'']"
  by (simp add: eval_defs)

theorem syncPlaylist_nothing_new_witness:
  "fst (syncPlaylist exampleEnv exampleConfig (js ''t5'') (Inr (exampleInfo [js ''a'']))
          examplePlaylist (run exampleEnv exampleConfig downloadRun started))
     = Inr 0
   \<and> starting (snd (syncPlaylist exampleEnv exampleConfig (js ''t5'')
                      (Inr (exampleInfo [js ''a''])) examplePlaylist
                      (run exampleEnv exampleConfig downloadRun started)))
       @ downloadQueue (snd (syncPlaylist exampleEnv exampleConfig (js ''t5'')
                      (Inr (exampleInfo [js ''a''])) examplePlaylist
                      (run exampleEnv exampleConfig downloadRun started)))
     = []"
proof -
  let ?s = "run exampleEnv exampleConfig downloadRun started"
  have l: "db (dbm ?s) \<noteq> None" by (simp add: downloadRun_def eval_defs)
  have all: "\<forall>e\<in>set (entries (exampleInfo [js ''a''])).
               isVideoDownloaded (vi_id e) (dbm ?s) = Inr True"
    by (simp add: downloadRun_def eval_defs)
  have ok: "\<forall>n. save_ok exampleEnv n" by (simp add: exampleEnv_def)
  have e: "starting ?s @ downloadQueue ?s = []" by (simp add: downloadRun_def eval_defs)
  from syncPlaylist_nothing_new [OF l all, of exampleEnv exampleConfig "js ''t5''" examplePlaylist]
    ok e
  show ?thesis by simp
qed

text \<open>
  Claim C5, as stated, fails: a completed record whose flag is absent is not selected,
  and the sweep probes nothing.
\<close>

theorem sweep_skips_absent_flag:
  "status (exampleVideo (js ''a'') Completed None) = Completed
   \<and> hasSponsorBlock (exampleVideo (js ''a'') Completed None) = None
   \<and> probed (snd (checkAndUpdateSponsorBlockVideos exampleEnv exampleConfig
                    (exampleSystem [] [exampleVideo (js ''a'') Completed None]))) = []"
  by (simp add: eval_defs)

theorem sweep_probes_witness:
  "probed (snd (checkAndUpdateSponsorBlockVideos exampleEnv exampleConfig
      (exampleSystem []
         [exampleVideo (js ''a'') Completed (Some False),
          exampleVideo (js ''b'') Completed (Some True),
          exampleVideo (js ''c'') Failed None,
          exampleVideo (js ''d'') Completed None]))) = [js ''a'']"
proof -
  let ?vs = "[exampleVideo (js ''a'') Completed (Some False),
          exampleVideo (js ''b'') Completed (Some True),
          exampleVideo (js ''c'') Failed None,
          exampleVideo (js ''d'') Completed None]"
  have d: "db (dbm (exampleSystem [] ?vs)) = Some \<lparr>playlists = [], videos = ?vs\<rparr>"
    by (simp add: exampleSystem_def)
  have p: "probed (exampleSystem [] ?vs) = []"
    by (simp add: exampleSystem_def started_def)
  show ?thesis
    using sweep_probes [OF d, of exampleEnv exampleConfig] p
    by (simp add: exampleVideo_def)
qed

text \<open>
  Claim C7, as stated, fails: the listing is resolved, the removal of a stale record
  fails at its write, syncPlaylist rejects and the timestamp stays null.
\<close>

theorem sync_aborts_before_lastChecked:
  "fst (syncPlaylist failingEnv exampleConfig (js ''t1'') (exampleListing [])
          examplePlaylist
          (exampleSystem [examplePlaylist] [exampleVideo (js ''x'') Completed (Some True)]))
     = Inl PersistenceError
   \<and> map_option lastChecked
        (storedPlaylist (js ''p1'')
           (dbm (snd (syncPlaylist failingEnv exampleConfig (js ''t1'') (exampleListing [])
                        examplePlaylist
                        (exampleSystem [examplePlaylist]
                           [exampleVideo (js ''x'') Completed (Some True)])))))
      = Some None"
  by (simp add: eval_defs)

theorem syncPlaylist_lastChecked_witness:
  "map_option lastChecked
     (storedPlaylist (pl_id examplePlaylist)
        (dbm (snd (syncPlaylist exampleEnv exampleConfig (js ''t1'') (Inr (exampleInfo []))
                     examplePlaylist
                     (exampleSystem [examplePlaylist]
                        [exampleVideo (js ''x'') Completed (Some True)])))))
   = Some (Some (js ''t1''))"
proof -
  let ?s = "exampleSystem [examplePlaylist] [exampleVideo (js ''x'') Completed (Some True)]"
  have ok: "\<forall>n. save_ok exampleEnv n" by (simp add: exampleEnv_def)
  have h: "storedPlaylist (pl_id examplePlaylist) (dbm ?s) \<noteq> None"
    by (simp add: storedPlaylist_def exampleSystem_def examplePlaylist_def)
  from syncPlaylist_lastChecked [OF ok h] show ?thesis by blast
qed

text \<open>
  Claim C8, as stated, fails: addVideo pushes the record before it saves, so when the
  write fails isVideoDownloaded is true while the database file holds no record.
\<close>

theorem downloaded_but_not_persisted:
  "isVideoDownloaded (js ''a'') (dbm (run diskFullEnv exampleConfig downloadRun started))
     = Inr True
   \<and> persistedVideos (run diskFullEnv exampleConfig downloadRun started) = []"
  by (simp add: downloadRun_def eval_defs)

theorem isVideoDownloaded_sound_witness:
  "isVideoDownloaded (js ''a'') (dbm (run exampleEnv exampleConfig downloadRun started))
     = Inr True
   \<and> (\<exists>v\<in>set (storedVideos (run exampleEnv exampleConfig downloadRun started)).
         v_id v = js ''a'' \<and> status v = Completed \<and> filepath v \<noteq> []
         \<and> v \<in> set (persistedVideos (run exampleEnv exampleConfig downloadRun started)))"
proof -
  have pj: "\<forall>a b. path_join exampleEnv a b \<noteq> []" by (simp add: exampleEnv_def js_def)
  have c: "completedHavePath (storedVideos started)"
    by (simp add: completedHavePath_def eval_defs)
  have d: "isVideoDownloaded (js ''a'')
             (dbm (run exampleEnv exampleConfig downloadRun started)) = Inr True"
    by (simp add: downloadRun_def eval_defs)
  have ok: "(\<forall>n. save_ok exampleEnv n) \<and> dbFile (dbm started) = db (dbm started)"
    by (simp add: exampleEnv_def started_def)
  from isVideoDownloaded_sound [OF pj c d] ok d show ?thesis by blast
qed

end
